theory Spec2Isabelle
  imports Main "HOL-Library.Sublist" "HOL-Library.Char_ord"
begin

section \<open>Python strings\<close>

text \<open>
  Source text is a \<open>string\<close>. Python's \<open>w in s\<close> is \<^const>\<open>sublist\<close>,
  \<open>s.startswith(w)\<close> is \<^const>\<open>prefix\<close> and \<open>s.endswith(w)\<close> is \<^const>\<open>suffix\<close>.
  The character classes are given for ASCII text.
\<close>

definition is_space :: "char \<Rightarrow> bool" where
  \<comment> \<open>\<open>\s\<close> and \<open>str.strip\<close>: blank, tab, line feed, vertical tab, form feed, carriage
      return and the four separators 0x1C..0x1F\<close>
  "is_space c \<longleftrightarrow> c = CHR '' '' \<or> (CHR 0x09 \<le> c \<and> c \<le> CHR 0x0D) \<or> (CHR 0x1C \<le> c \<and> c \<le> CHR 0x1F)"

definition is_letter :: "char \<Rightarrow> bool" where
  \<comment> \<open>\<open>[A-Za-z]\<close>\<close>
  "is_letter c \<longleftrightarrow> (CHR ''A'' \<le> c \<and> c \<le> CHR ''Z'') \<or> (CHR ''a'' \<le> c \<and> c \<le> CHR ''z'')"

definition is_word :: "char \<Rightarrow> bool" where
  \<comment> \<open>\<open>\w\<close>\<close>
  "is_word c \<longleftrightarrow> is_letter c \<or> (CHR ''0'' \<le> c \<and> c \<le> CHR ''9'') \<or> c = CHR ''_''"

definition strip :: "string \<Rightarrow> string" where
  "strip s = rev (dropWhile is_space (rev (dropWhile is_space s)))"

fun split_on :: "char \<Rightarrow> string \<Rightarrow> string list" where
  \<comment> \<open>\<open>s.split(d)\<close> for a one-character separator: never empty, keeps empty segments\<close>
  "split_on d [] = [[]]"
| "split_on d (c # cs) =
     (if c = d then [] # split_on d cs
      else (case split_on d cs of [] \<Rightarrow> [[c]] | x # xs \<Rightarrow> (c # x) # xs))"

section \<open>Python regular expressions\<close>

text \<open>
  The patterns of the two commands use literals, character classes, repetition of a
  character class (greedy or lazy), concatenation, alternation, one bounded lazy
  repetition and at most one capture group. \<open>rmatch r (s, g)\<close> lists the ways \<open>r\<close>
  matches a prefix of \<open>s\<close>, in the order in which Python's backtracking matcher tries
  them: each entry is the text left after the match and the capture group, stored as
  the text from the group's start and the text from its end.
\<close>

datatype regex =
    Eps
  | Lit string
  | One "char \<Rightarrow> bool"
  | Many "char \<Rightarrow> bool" nat bool
  | Seq regex regex
  | Alt regex regex
  | Group regex

type_synonym mstate = "string \<times> (string \<times> string) option"

definition rep_counts :: "nat \<Rightarrow> nat \<Rightarrow> bool \<Rightarrow> nat list" where
  \<comment> \<open>how many characters a repetition with minimum \<open>m\<close> takes when \<open>k\<close> are available\<close>
  "rep_counts m k greedy = (if greedy then rev [m..<Suc k] else [m..<Suc k])"

primrec rmatch :: "regex \<Rightarrow> mstate \<Rightarrow> mstate list" where
  "rmatch Eps st = [st]"
| "rmatch (Lit w) st = (if prefix w (fst st) then [(drop (length w) (fst st), snd st)] else [])"
| "rmatch (One P) st = (case fst st of [] \<Rightarrow> [] | c # cs \<Rightarrow> if P c then [(cs, snd st)] else [])"
| "rmatch (Many P m greedy) st =
     map (\<lambda>i. (drop i (fst st), snd st)) (rep_counts m (length (takeWhile P (fst st))) greedy)"
| "rmatch (Seq a b) st = concat (map (rmatch b) (rmatch a st))"
| "rmatch (Alt a b) st = rmatch a st @ rmatch b st"
| "rmatch (Group r) st = map (\<lambda>st'. (fst st', Some (fst st, fst st'))) (rmatch r st)"

definition seq :: "regex list \<Rightarrow> regex" where
  "seq rs = foldr Seq rs Eps"

primrec upto_lazy :: "nat \<Rightarrow> regex \<Rightarrow> regex" where
  \<comment> \<open>\<open>(?:r){0,n}?\<close>\<close>
  "upto_lazy 0 r = Eps"
| "upto_lazy (Suc n) r = Alt Eps (Seq r (upto_lazy n r))"

definition opt :: "regex \<Rightarrow> regex" where
  \<comment> \<open>\<open>(?:r)?\<close>\<close>
  "opt r = Alt r Eps"

definition ws0 :: regex where "ws0 = Many is_space 0 True"
definition ws1 :: regex where "ws1 = Many is_space 1 True"
definition word1 :: regex where "word1 = Many is_word 1 True"
definition dot_star :: regex where "dot_star = Many (\<lambda>c. c \<noteq> CHR 0x0A) 0 True"
definition any_lazy :: regex where
  \<comment> \<open>\<open>.*?\<close> under \<open>re.DOTALL\<close>\<close>
  "any_lazy = Many (\<lambda>c. True) 0 False"

text \<open>
  A match is the text from its start, the text from its end and the capture group.
  \<open>first_match\<close> is one attempt at a fixed start; with \<open>must_advance\<close> an empty match is
  refused there, as the scanner does right after an empty match. \<open>search_at\<close> moves the
  start to the right until an attempt succeeds.
\<close>

type_synonym rematch = "string \<times> string \<times> (string \<times> string) option"

definition first_match :: "regex \<Rightarrow> bool \<Rightarrow> string \<Rightarrow> mstate option" where
  "first_match r must_advance s =
     (case filter (\<lambda>m. \<not> must_advance \<or> fst m \<noteq> s) (rmatch r (s, None)) of
        [] \<Rightarrow> None | m # _ \<Rightarrow> Some m)"

fun search_at :: "regex \<Rightarrow> bool \<Rightarrow> string \<Rightarrow> rematch option" where
  "search_at r adv [] = (case first_match r adv [] of None \<Rightarrow> None | Some m \<Rightarrow> Some ([], m))"
| "search_at r adv (c # cs) =
     (case first_match r adv (c # cs) of None \<Rightarrow> search_at r False cs | Some m \<Rightarrow> Some (c # cs, m))"

definition re_search :: "regex \<Rightarrow> string \<Rightarrow> bool" where
  \<comment> \<open>the truth value of \<open>re.search(pattern, s)\<close>\<close>
  "re_search r s \<longleftrightarrow> search_at r False s \<noteq> None"

definition match_text :: "rematch \<Rightarrow> string" where
  \<comment> \<open>\<open>m.group(0)\<close>\<close>
  "match_text m = (case m of (st, en, g) \<Rightarrow> take (length st - length en) st)"

definition group1 :: "rematch \<Rightarrow> string" where
  \<comment> \<open>\<open>m.group(1)\<close>; every pattern it is used on has its group on every path\<close>
  "group1 m = (case m of (st, en, g) \<Rightarrow>
     (case g of None \<Rightarrow> [] | Some (gs, ge) \<Rightarrow> take (length gs - length ge) gs))"

definition group1_start :: "string \<Rightarrow> rematch \<Rightarrow> nat" where
  \<comment> \<open>\<open>m.start(1)\<close> in the searched text\<close>
  "group1_start content m = (case m of (st, en, g) \<Rightarrow>
     (case g of None \<Rightarrow> 0 | Some (gs, ge) \<Rightarrow> length content - length gs))"

section \<open>PathResolver\<close>

datatype error = ValueError

definition parse_serializer_path :: "string \<Rightarrow> error + string \<times> string \<times> string" where
  "parse_serializer_path serializer_path =
     (let parts = split_on CHR ''.'' serializer_path in
      if length parts < 3 then Inl ValueError
      else if length parts > 3 then Inr (parts ! 0, parts ! (length parts - 2), last parts)
      else Inr (parts ! 0, parts ! 1, parts ! 2))"

section \<open>Data model\<close>

text \<open>
  The file tree as the scanner sees it: the registered application directories in the
  order in which the set \<open>project_dirs\<close> is iterated, for each directory the files
  \<open>os.walk\<close> visits under it (each given by the path \<open>os.path.relpath\<close> returns for
  it), and what opening and reading a path gives. \<open>IOError\<close> stands for every
  \<open>OSError\<close> (file missing, permission denied, a directory), \<open>UnicodeDecodeError\<close> for
  text that is not UTF-8.
\<close>

datatype read_result = Content string | IOError | UnicodeDecodeError

record file_tree =
  project_dirs :: "string list"
  walk_files :: "string \<Rightarrow> string list"
  read_text :: "string \<Rightarrow> read_result"

text \<open>
  An occurrence is a dictionary with the keys \<open>file\<close> and \<open>import_stmt\<close>, or with the
  keys \<open>file\<close>, \<open>line\<close> and \<open>content\<close>. \<open>item_line\<close> is \<open>item.get("line", 0)\<close>.
\<close>

datatype item =
    ImportItem (item_file: string) (import_stmt: string)
  | LineItem (item_file: string) (line: nat) (content: string)

fun item_line :: "item \<Rightarrow> nat" where
  "item_line (ImportItem f stmt) = 0"
| "item_line (LineItem f n txt) = n"

datatype category =
    direct_imports
  | serializer_class_declarations
  | field_usages
  | serializer_inheritance
  | direct_instantiations
  | many_true_usages
  | inner_class_usages
  | meta_class_references

type_synonym scan_result = "category \<Rightarrow> item list"

record analyzer =
  serializer_path :: string
  app_name :: string
  file_name :: string
  serializer_name :: string
  serializer_class :: bool
  results :: scan_result
  seen_results :: "(string \<times> nat \<times> string) set"

definition SerializerUsageAnalyzer :: "string \<Rightarrow> error + analyzer" where
  \<comment> \<open>the constructor\<close>
  "SerializerUsageAnalyzer p =
     (case parse_serializer_path p of
        Inl e \<Rightarrow> Inl e
      | Inr (app, fname, cls) \<Rightarrow>
          Inr \<lparr>serializer_path = p, app_name = app, file_name = fname, serializer_name = cls,
               serializer_class = False, results = (\<lambda>c. []), seen_results = {}\<rparr>)"

definition record_item :: "category \<Rightarrow> item \<Rightarrow> analyzer \<Rightarrow> analyzer" where
  \<comment> \<open>\<open>self.results[c].append(x)\<close>\<close>
  "record_item c x self = self\<lparr>results := (results self)(c := results self c @ [x])\<rparr>"

section \<open>FileTree\<close>

text \<open>
  Every pass walks the tree with the same three nested loops and the same handler:
  a file whose name does not end in \<open>.py\<close> is passed over, and a file whose read
  raises is left by \<open>continue\<close>.
\<close>

definition for_each_source :: "file_tree \<Rightarrow> (string \<Rightarrow> string \<Rightarrow> 's \<Rightarrow> 's) \<Rightarrow> 's \<Rightarrow> 's" where
  "for_each_source t body =
     fold (\<lambda>app_dir. fold (\<lambda>rel_path st.
             if suffix ''.py'' rel_path then
               (case read_text t rel_path of
                  Content text \<Rightarrow> body rel_path text st
                | IOError \<Rightarrow> st
                | UnicodeDecodeError \<Rightarrow> st)
             else st) (walk_files t app_dir)) (project_dirs t)"

definition for_each_line :: "string \<Rightarrow> (nat \<Rightarrow> string \<Rightarrow> 's \<Rightarrow> 's) \<Rightarrow> 's \<Rightarrow> 's" where
  \<comment> \<open>\<open>for line in content.split('\n')\<close> with \<open>line_num\<close> counting from 1\<close>
  "for_each_line text body =
     fold (\<lambda>(line_num, ln). body line_num ln) (enumerate 1 (split_on (CHR 0x0A) text))"

section \<open>Iterating over matches\<close>

lemma rmatch_suffix: "m \<in> set (rmatch r st) \<Longrightarrow> suffix (fst m) (fst st)"
proof (induction r arbitrary: st m)
  case (Lit w)
  then show ?case by (auto simp: suffix_drop split: if_splits)
next
  case (One P)
  then show ?case by (cases "fst st") (auto simp: suffix_Cons split: if_splits)
next
  case (Many P k greedy)
  then show ?case by (auto simp: suffix_drop)
next
  case (Seq a b)
  then obtain m' where "m' \<in> set (rmatch a st)" "m \<in> set (rmatch b m')" by auto
  then show ?case using Seq.IH suffix_order.trans by blast
qed auto

lemma first_match_Some:
  "first_match r adv s = Some m \<Longrightarrow> suffix (fst m) s \<and> (adv \<longrightarrow> fst m \<noteq> s)"
proof -
  assume a: "first_match r adv s = Some m"
  then obtain ms where "filter (\<lambda>m. \<not> adv \<or> fst m \<noteq> s) (rmatch r (s, None)) = m # ms"
    by (auto simp: first_match_def split: list.splits)
  then have "m \<in> set (filter (\<lambda>m. \<not> adv \<or> fst m \<noteq> s) (rmatch r (s, None)))"
    by (metis list.set_intros(1))
  then show ?thesis using rmatch_suffix [of m r "(s, None)"] by auto
qed

lemma search_at_Some:
  "search_at r adv s = Some (st, en, g) \<Longrightarrow>
     suffix st s \<and> suffix en st \<and> (adv \<and> st = s \<longrightarrow> en \<noteq> st)"
proof (induction r adv s rule: search_at.induct)
  case (1 r adv)
  then show ?case by (auto split: option.splits dest: first_match_Some)
next
  case (2 r adv c cs)
  show ?case
  proof (cases "first_match r adv (c # cs)")
    case None
    with 2 have "suffix st cs \<and> suffix en st" by simp
    then show ?thesis by (auto simp: suffix_Cons dest: suffix_length_le)
  next
    case (Some m)
    with 2 show ?thesis by (auto dest: first_match_Some)
  qed
qed

function finditer :: "regex \<Rightarrow> bool \<Rightarrow> string \<Rightarrow> rematch list" where
  \<comment> \<open>\<open>re.finditer(pattern, s)\<close>: the next search starts where the last match ended\<close>
  "finditer r adv s =
     (case search_at r adv s of
        None \<Rightarrow> []
      | Some (st, en, g) \<Rightarrow> (st, en, g) # finditer r (en = st) en)"
  by pat_completeness auto
termination
proof (relation "measures [\<lambda>(r, adv, s). length s, \<lambda>(r, adv, s). if adv then 0 else 1]", goal_cases)
  case 1
  show ?case by simp
next
  case (2 r adv s x2 st y en g)
  then have h: "suffix st s" "suffix en st" "adv \<and> st = s \<longrightarrow> en \<noteq> st"
    using search_at_Some [of r adv s st en g] by auto
  then have le: "length en \<le> length st" "length st \<le> length s"
    by (auto dest: suffix_length_le)
  show ?case
  proof (cases "length en < length s")
    case True
    then show ?thesis by simp
  next
    case False
    with le have "length en = length st" "length st = length s" by auto
    with h have "en = st" "st = s"
      by (metis suffix_order.eq_iff suffix_length_suffix order_refl)+
    with h have "\<not> adv" by auto
    with \<open>en = st\<close> \<open>st = s\<close> show ?thesis by simp
  qed
qed

definition findall :: "regex \<Rightarrow> string \<Rightarrow> string list" where
  \<comment> \<open>\<open>re.findall\<close> for a pattern without a group: the matched texts\<close>
  "findall r s = map match_text (finditer r False s)"

section \<open>UsageScanner\<close>

text \<open>
  The group, module and class names are written into the patterns as they are. They are
  read here as literal text, which is what the pattern means when the names are made
  of word characters, as class, module and package names are.
\<close>

subsection \<open>Direct imports\<close>

definition from_import :: "regex list \<Rightarrow> regex list \<Rightarrow> regex" where
  \<comment> \<open>\<open>from\s+<module>\s+import\s+<rest>\<close>\<close>
  "from_import module rest = seq ([Lit ''from'', ws1] @ module @ [ws1, Lit ''import'', ws1] @ rest)"

definition import_patterns :: "string \<Rightarrow> string \<Rightarrow> string \<Rightarrow> regex list" where
  "import_patterns app fname cls =
     [from_import [Lit app, Lit ''.'', Lit fname] [dot_star, Lit cls],
      from_import [Lit app, Lit ''.'', Lit fname] [Lit ''('', dot_star, Lit cls, dot_star, Lit '')''],
      from_import [Lit app, Lit ''.serializers''] [dot_star, Lit cls],
      from_import [Lit app, Lit ''.serializers''] [Lit ''('', dot_star, Lit cls, dot_star, Lit '')''],
      from_import [Lit app, Lit ''.rest.serializers.'', Lit fname] [dot_star, Lit cls],
      from_import [Lit app, Lit ''.rest.serializers''] [dot_star, Lit cls]]"

definition scan_for_direct_imports :: "file_tree \<Rightarrow> analyzer \<Rightarrow> analyzer" where
  "scan_for_direct_imports t self =
     for_each_source t (\<lambda>rel_path text.
       fold (\<lambda>pattern st.
         (case findall pattern text of
            [] \<Rightarrow> st
          | first # _ \<Rightarrow> record_item direct_imports (ImportItem rel_path first) st))
         (import_patterns (app_name self) (file_name self) (serializer_name self))) self"

subsection \<open>Declarations as a view's serializer\<close>

definition declaration_patterns :: "string \<Rightarrow> regex list" where
  "declaration_patterns cls =
     [seq [Lit ''serializer_class'', ws0, Lit ''='', ws0, Lit cls],
      seq [Lit ''serializer_class'', ws0, Lit ''='', ws0, Lit cls, Lit ''.'', Many is_letter 1 True],
      seq [Alt (Lit ''return'') (Lit ''yield''), ws1, Lit cls],
      seq [Lit ''serializer'', ws0, Lit ''='', ws0, Lit cls],
      seq [One (\<lambda>c. c = CHR 0x27 \<or> c = CHR 0x22), Lit cls, One (\<lambda>c. c = CHR 0x27 \<or> c = CHR 0x22)],
      seq [Lit '':'', ws0, Lit cls]]"

definition get_serializer_pattern :: regex where
  \<comment> \<open>\<open>def\s+get_serializer(?:_class)?\s*\([^)]*\):\s*(?:\n[^\n]*){0,20}?\n[ \t]+(?:return|yield)\s+([^()\n]*)\<close>\<close>
  "get_serializer_pattern =
     seq [Lit ''def'', ws1, Lit ''get_serializer'', opt (Lit ''_class''), ws0,
          Lit ''('', Many (\<lambda>c. c \<noteq> CHR '')'') 0 True, Lit ''):'', ws0,
          upto_lazy 20 (Seq (Lit [CHR 0x0A]) (Many (\<lambda>c. c \<noteq> CHR 0x0A) 0 True)),
          Lit [CHR 0x0A], Many (\<lambda>c. c = CHR '' '' \<or> c = CHR 0x09) 1 True,
          Alt (Lit ''return'') (Lit ''yield''), ws1,
          Group (Many (\<lambda>c. c \<noteq> CHR ''('' \<and> c \<noteq> CHR '')'' \<and> c \<noteq> CHR 0x0A) 0 True)]"

definition scan_for_serializer_class_declarations :: "file_tree \<Rightarrow> analyzer \<Rightarrow> analyzer" where
  "scan_for_serializer_class_declarations t self =
     for_each_source t (\<lambda>rel_path text st0.
       fold (\<lambda>m st.
           (let method_body = group1 m in
            if sublist (serializer_name self) method_body then
              (let start_pos = group1_start text m;
                   line_count = count_list (take start_pos text) (CHR 0x0A) + 1
               in record_item serializer_class_declarations
                    (LineItem rel_path line_count
                       (''Dynamic selection in get_serializer_class: '' @ strip method_body)) st)
            else st))
         (finditer get_serializer_pattern False text)
         (for_each_line text (\<lambda>line_num ln.
            fold (\<lambda>pattern st.
              if re_search pattern ln
              then record_item serializer_class_declarations (LineItem rel_path line_num (strip ln)) st
              else st) (declaration_patterns (serializer_name self))) st0)) self"

subsection \<open>Line passes with one record per matching pattern\<close>

definition scan_lines :: "file_tree \<Rightarrow> category \<Rightarrow> regex list \<Rightarrow> (string \<Rightarrow> bool) \<Rightarrow> analyzer \<Rightarrow> analyzer" where
  \<comment> \<open>the loop shared by the field, inheritance, \<open>many=True\<close>, inner-class and Meta passes:
      every readable file, every line, every pattern; \<open>ok\<close> is the pass's extra test on the line\<close>
  "scan_lines t c patterns ok self =
     for_each_source t (\<lambda>rel_path text.
       for_each_line text (\<lambda>line_num ln.
         fold (\<lambda>pattern st.
           if re_search pattern ln \<and> ok ln
           then record_item c (LineItem rel_path line_num (strip ln)) st
           else st) patterns)) self"

definition field_patterns :: "string \<Rightarrow> regex list" where
  "field_patterns cls =
     [seq [word1, ws0, Lit ''='', ws0, Lit cls, Lit ''(''],
      seq [word1, ws0, Lit ''='', ws0, Lit cls, Lit ''.'', word1, Lit ''('']]"

definition scan_for_field_usages :: "file_tree \<Rightarrow> analyzer \<Rightarrow> analyzer" where
  "scan_for_field_usages t self =
     scan_lines t field_usages (field_patterns (serializer_name self)) (\<lambda>ln. True) self"

definition inheritance_pattern :: "string \<Rightarrow> regex" where
  \<comment> \<open>\<open>class\s+\w+\(<name>.*\):\<close>\<close>
  "inheritance_pattern cls = seq [Lit ''class'', ws1, word1, Lit ''('', Lit cls, dot_star, Lit ''):'']"

definition scan_for_serializer_inheritance :: "file_tree \<Rightarrow> analyzer \<Rightarrow> analyzer" where
  "scan_for_serializer_inheritance t self =
     scan_lines t serializer_inheritance [inheritance_pattern (serializer_name self)] (\<lambda>ln. True) self"

definition instantiation_patterns :: "string \<Rightarrow> regex list" where
  "instantiation_patterns cls =
     [seq [Lit cls, Lit ''(''],
      seq [Lit cls, Lit ''.'', word1, Lit ''('']]"

definition scan_for_direct_instantiations :: "file_tree \<Rightarrow> analyzer \<Rightarrow> analyzer" where
  "scan_for_direct_instantiations t self =
     for_each_source t (\<lambda>rel_path text.
       for_each_line text (\<lambda>line_num ln.
         fold (\<lambda>pattern st.
           if re_search pattern ln \<and> \<not> sublist ''class'' ln \<and> \<not> sublist ''='' ln
           then (let key = (rel_path, line_num, strip ln) in
                 if key \<notin> seen_results st
                 then record_item direct_instantiations (LineItem rel_path line_num (strip ln))
                        (st\<lparr>seen_results := insert key (seen_results st)\<rparr>)
                 else st)
           else st) (instantiation_patterns (serializer_name self)))) self"

definition many_true_patterns :: "string \<Rightarrow> regex list" where
  "many_true_patterns cls =
     [seq [Lit cls, Lit ''('', dot_star, Lit ''many=True''],
      seq [Lit cls, Lit ''.'', word1, Lit ''('', dot_star, Lit ''many=True'']]"

definition scan_for_many_true_usages :: "file_tree \<Rightarrow> analyzer \<Rightarrow> analyzer" where
  "scan_for_many_true_usages t self =
     scan_lines t many_true_usages (many_true_patterns (serializer_name self)) (\<lambda>ln. True) self"

definition inner_class_pattern :: "string \<Rightarrow> regex" where
  \<comment> \<open>\<open><name>\.[A-Za-z]+\<close>\<close>
  "inner_class_pattern cls = seq [Lit cls, Lit ''.'', Many is_letter 1 True]"

definition scan_for_inner_class_usages :: "file_tree \<Rightarrow> analyzer \<Rightarrow> analyzer" where
  "scan_for_inner_class_usages t self =
     scan_lines t inner_class_usages [inner_class_pattern (serializer_name self)]
       (\<lambda>ln. \<not> sublist ''serializer_class'' ln) self"

definition meta_pattern :: "string \<Rightarrow> regex" where
  \<comment> \<open>\<open><name>\.Meta\<close>\<close>
  "meta_pattern cls = seq [Lit cls, Lit ''.Meta'']"

definition scan_for_meta_class_references :: "file_tree \<Rightarrow> analyzer \<Rightarrow> analyzer" where
  "scan_for_meta_class_references t self =
     scan_lines t meta_class_references [meta_pattern (serializer_name self)] (\<lambda>ln. True) self"

subsection \<open>Usages through an enclosing serializer\<close>

definition potential_parent_pattern :: "string \<Rightarrow> regex" where
  \<comment> \<open>\<open>class\s+(\w+Serializer).*?class\s+<name>\<close> under \<open>re.DOTALL\<close>\<close>
  "potential_parent_pattern cls =
     seq [Lit ''class'', ws1, Group (Seq word1 (Lit ''Serializer'')), any_lazy, Lit ''class'', ws1, Lit cls]"

definition find_potential_parent_serializers :: "file_tree \<Rightarrow> analyzer \<Rightarrow> string list" where
  "find_potential_parent_serializers t self =
     for_each_source t (\<lambda>rel_path text parent_serializers.
       fold (\<lambda>m ps. ps @ [group1 m])
         (finditer (potential_parent_pattern (serializer_name self)) False text) parent_serializers) []"

definition scan_for_parent_serializer_usages :: "file_tree \<Rightarrow> analyzer \<Rightarrow> analyzer" where
  "scan_for_parent_serializer_usages t self =
     (let parent_serializers = find_potential_parent_serializers t self in
      if parent_serializers = [] then self
      else fold (\<lambda>parent.
             for_each_source t (\<lambda>rel_path text.
               for_each_line text (\<lambda>line_num ln st.
                 if re_search (seq [Lit parent, Lit ''.'', Lit (serializer_name self)]) ln
                 then record_item serializer_class_declarations
                        (LineItem rel_path line_num (''Used through parent: '' @ strip ln)) st
                 else st))) parent_serializers self)"

section \<open>ClassLocator\<close>

text \<open>
  \<open>find_serializer_in_file\<close> answers whether a definition of the class was seen and
  sets the flag \<open>serializer_class\<close>. A candidate path that does not exist and one
  whose read raises both go on to the next candidate, so both are the branches of
  \<open>read_text\<close> without content.
\<close>

definition basename :: "string \<Rightarrow> string" where
  "basename p = last (split_on CHR ''/'' p)"

definition possible_file_patterns :: "analyzer \<Rightarrow> string list" where
  "possible_file_patterns self =
     [app_name self @ ''/rest/serializers/'' @ file_name self @ ''.py'',
      app_name self @ ''/'' @ file_name self @ ''.py'',
      app_name self @ ''/serializers/'' @ file_name self @ ''.py'',
      app_name self @ ''/custom_serializer/'' @ file_name self @ ''.py'']"

definition defined_in :: "string \<Rightarrow> string \<Rightarrow> bool" where
  \<comment> \<open>the two searches on a candidate file: \<open>class\s+<name>\(\<close> and
      \<open>class\s+\w+Serializer.*?class\s+<name>\(\<close> under \<open>re.DOTALL\<close>\<close>
  "defined_in cls text \<longleftrightarrow>
     re_search (seq [Lit ''class'', ws1, Lit cls, Lit ''('']) text \<or>
     re_search (seq [Lit ''class'', ws1, word1, Lit ''Serializer'', any_lazy,
                     Lit ''class'', ws1, Lit cls, Lit ''('']) text"

definition nested_in :: "string \<Rightarrow> string \<Rightarrow> bool" where
  \<comment> \<open>\<open>class\s+\w+.*?class\s+<name>\(\<close> under \<open>re.DOTALL\<close>\<close>
  "nested_in cls text \<longleftrightarrow>
     re_search (seq [Lit ''class'', ws1, word1, any_lazy, Lit ''class'', ws1, Lit cls, Lit ''('']) text"

definition find_serializer_in_file :: "file_tree \<Rightarrow> analyzer \<Rightarrow> bool \<times> analyzer" where
  "find_serializer_in_file t self =
     (let direct = list_ex (\<lambda>file_pattern.
                     (case read_text t file_pattern of
                        Content text \<Rightarrow> defined_in (serializer_name self) text
                      | IOError \<Rightarrow> False
                      | UnicodeDecodeError \<Rightarrow> False)) (possible_file_patterns self);
          parents = find_potential_parent_serializers t self;
          last_resort =
            (case find (\<lambda>dir_path. basename dir_path = app_name self) (project_dirs t) of
               None \<Rightarrow> False
             | Some app_dir \<Rightarrow>
                 list_ex (\<lambda>file_path. suffix ''.py'' file_path \<and>
                     (case read_text t file_path of
                        Content text \<Rightarrow> nested_in (serializer_name self) text
                      | IOError \<Rightarrow> False
                      | UnicodeDecodeError \<Rightarrow> False)) (walk_files t app_dir))
      in if direct \<or> parents \<noteq> [] \<or> last_resort
         then (True, self\<lparr>serializer_class := True\<rparr>)
         else (False, self))"

section \<open>Deduplicator\<close>

fun dedup_loop :: "(string \<times> nat) set \<Rightarrow> item list \<Rightarrow> item list \<Rightarrow> item list" where
  "dedup_loop seen unique_results [] = unique_results"
| "dedup_loop seen unique_results (x # xs) =
     (let key = (item_file x, item_line x) in
      if key \<notin> seen then dedup_loop (insert key seen) (unique_results @ [x]) xs
      else dedup_loop seen unique_results xs)"

definition deduplicate_results :: "analyzer \<Rightarrow> analyzer" where
  "deduplicate_results self = self\<lparr>results := (\<lambda>c. dedup_loop {} [] (results self c))\<rparr>"

section \<open>The scan of one class\<close>

definition analyze :: "file_tree \<Rightarrow> analyzer \<Rightarrow> scan_result" where
  "analyze t self =
     (let (found, s0) = find_serializer_in_file t self;
          s1 = scan_for_direct_imports t s0;
          s2 = scan_for_serializer_class_declarations t s1;
          s3 = scan_for_field_usages t s2;
          s4 = scan_for_serializer_inheritance t s3;
          s5 = scan_for_direct_instantiations t s4;
          s6 = scan_for_many_true_usages t s5;
          s7 = scan_for_inner_class_usages t s6;
          s8 = scan_for_meta_class_references t s7;
          s9 = scan_for_parent_serializer_usages t s8
      in results (deduplicate_results s9))"

section \<open>ClassEnumerator\<close>

record candidate =
  name :: string
  path :: string
  rel_file :: string

definition splitext_root :: "string \<Rightarrow> string" where
  \<comment> \<open>\<open>os.path.splitext(p)[0]\<close> for a file name: cut at the last dot, unless only dots
      come before it\<close>
  "splitext_root p =
     (if CHR ''.'' \<in> set p then
        (let root = rev (tl (dropWhile (\<lambda>c. c \<noteq> CHR ''.'') (rev p))) in
         if list_all (\<lambda>c. c = CHR ''.'') root then p else root)
      else p)"

definition serializer_patterns :: "regex list" where
  "serializer_patterns =
     [seq [Lit ''class'', ws1, Group (Seq word1 (Lit ''Serializer'')), ws0, Lit ''(''],
      seq [Lit ''class'', ws1, Group (Seq word1 (Lit ''Serializer'')), ws0, Lit '':'']]"

definition derive_candidate :: "string \<Rightarrow> string \<Rightarrow> candidate list" where
  \<comment> \<open>the record appended for a class name found in the file \<open>rel_path\<close>\<close>
  "derive_candidate rel_path cls =
     (let parts = split_on CHR ''/'' rel_path in
      if length parts > 0 then
        (let app = parts ! 0;
             fname = splitext_root (last parts);
             p = (if sublist ''rest/serializers'' rel_path
                    then app @ ''.rest.serializers.'' @ fname @ ''.'' @ cls
                  else if sublist ''serializers'' rel_path
                    then app @ ''.serializers.'' @ fname @ ''.'' @ cls
                  else app @ ''.'' @ fname @ ''.'' @ cls)
         in [\<lparr>name = cls, path = p, rel_file = rel_path\<rparr>])
      else [])"

fun unique_by_name :: "string set \<Rightarrow> candidate list \<Rightarrow> candidate list \<Rightarrow> candidate list" where
  "unique_by_name seen unique_serializers [] = unique_serializers"
| "unique_by_name seen unique_serializers (x # xs) =
     (if name x \<notin> seen then unique_by_name (insert (name x) seen) (unique_serializers @ [x]) xs
      else unique_by_name seen unique_serializers xs)"

definition find_all_serializers :: "file_tree \<Rightarrow> candidate list" where
  "find_all_serializers t =
     unique_by_name {} []
       (for_each_source t (\<lambda>rel_path text.
          fold (\<lambda>pattern.
            fold (\<lambda>m serializers. serializers @ derive_candidate rel_path (group1 m))
              (finditer pattern False text)) serializer_patterns) [])"

section \<open>ReportAggregator\<close>

record serializer_result = candidate +
  total_usages :: nat
  details :: scan_result

record batch =
  unused_serializers :: "serializer_result list"
  all_results :: "serializer_result list"

definition count_usages :: "scan_result \<Rightarrow> nat" where
  "count_usages res =
     sum_list [length (res direct_imports), length (res serializer_class_declarations),
               length (res field_usages), length (res serializer_inheritance),
               length (res direct_instantiations), length (res many_true_usages),
               length (res inner_class_usages), length (res meta_class_references)]"

text \<open>
  The loop of \<open>handle\<close> runs the scan of a candidate inside \<open>try\<close>, and
  \<open>except Exception\<close> leaves a candidate whose constructor or scan raises out of both
  lists. The scan is \<open>analyze\<close> where this theory gives the meaning of the patterns:
  the three names hold none of the characters that are syntax in a pattern, so that
  writing them into a pattern gives a literal, and the text of the files is ASCII, so
  that \<open>\w\<close>, \<open>\s\<close> and \<open>strip\<close> are the classes above. Elsewhere a pattern may
  mean something else or fail to compile; what the scan does there is not modelled and
  is taken as the parameter \<open>beyond\<close>, with \<open>None\<close> for a scan that raised.
\<close>

definition re_special :: "char \<Rightarrow> bool" where
  \<comment> \<open>the characters that are syntax in a pattern\<close>
  "re_special c \<longleftrightarrow> c \<in> set ''.^$*+?{}[]|()'' \<or> c = CHR 0x5C"

definition is_ascii :: "char \<Rightarrow> bool" where
  "is_ascii c \<longleftrightarrow> c \<le> CHR 0x7F"

definition in_scope :: "file_tree \<Rightarrow> analyzer \<Rightarrow> bool" where
  "in_scope t self \<longleftrightarrow>
     list_all (\<lambda>c. \<not> re_special c) (app_name self @ file_name self @ serializer_name self) \<and>
     list_all (\<lambda>app_dir. list_all (\<lambda>rel_path.
         if suffix ''.py'' rel_path then
           (case read_text t rel_path of
              Content text \<Rightarrow> list_all is_ascii text
            | IOError \<Rightarrow> True
            | UnicodeDecodeError \<Rightarrow> True)
         else True) (walk_files t app_dir)) (project_dirs t)"

definition run_analysis ::
  "(file_tree \<Rightarrow> analyzer \<Rightarrow> scan_result option) \<Rightarrow> file_tree \<Rightarrow> analyzer \<Rightarrow> scan_result option" where
  \<comment> \<open>\<open>analyzer.analyze()\<close> as the loop sees it: a result, or \<open>None\<close> when it raised\<close>
  "run_analysis beyond t analyzer =
     (if in_scope t analyzer then Some (analyze t analyzer) else beyond t analyzer)"

definition analyze_candidate ::
  "(file_tree \<Rightarrow> analyzer \<Rightarrow> scan_result option) \<Rightarrow> file_tree \<Rightarrow> int \<Rightarrow> candidate \<Rightarrow> batch \<Rightarrow> batch" where
  \<comment> \<open>one round of the loop of \<open>handle\<close>\<close>
  "analyze_candidate beyond t threshold serializer b =
     (case SerializerUsageAnalyzer (path serializer) of
        Inl e \<Rightarrow> b
      | Inr analyzer \<Rightarrow>
          (case run_analysis beyond t analyzer of
             None \<Rightarrow> b
           | Some res \<Rightarrow>
               (let total = count_usages res;
                    serializer_result = \<lparr>name = name serializer, path = path serializer,
                                          rel_file = rel_file serializer, total_usages = total,
                                          details = res\<rparr>;
                    b1 = b\<lparr>all_results := all_results b @ [serializer_result]\<rparr>
                in if int total \<le> threshold
                   then b1\<lparr>unused_serializers := unused_serializers b1 @ [serializer_result]\<rparr>
                   else b1)))"

definition analyze_all ::
  "(file_tree \<Rightarrow> analyzer \<Rightarrow> scan_result option) \<Rightarrow> file_tree \<Rightarrow> int \<Rightarrow> candidate list \<Rightarrow> batch" where
  \<comment> \<open>the loop over the candidates, then the sort of the unused list\<close>
  "analyze_all beyond t threshold serializers =
     (let b = fold (analyze_candidate beyond t threshold) serializers
                \<lparr>unused_serializers = [], all_results = []\<rparr>
      in b\<lparr>unused_serializers := sort_key total_usages (unused_serializers b)\<rparr>)"

definition selected :: "string option \<Rightarrow> int option \<Rightarrow> candidate list \<Rightarrow> candidate list" where
  \<comment> \<open>the \<open>--app\<close> filter and the \<open>--limit\<close> cut\<close>
  "selected target_app limit serializers =
     (let s1 = (case target_app of
                  None \<Rightarrow> serializers
                | Some a \<Rightarrow> if a = [] then serializers
                            else filter (\<lambda>s. prefix (a @ ''.'') (path s)) serializers)
      in (case limit of
            None \<Rightarrow> s1
          | Some l \<Rightarrow> if l > 0 then take (nat l) s1 else s1))"

definition handle ::
  "(file_tree \<Rightarrow> analyzer \<Rightarrow> scan_result option) \<Rightarrow> file_tree \<Rightarrow> int \<Rightarrow> string option \<Rightarrow> int option \<Rightarrow> batch" where
  "handle beyond t threshold target_app limit =
     analyze_all beyond t threshold (selected target_app limit (find_all_serializers t))"

section \<open>Notions used to state the properties\<close>

text \<open>A dotted path written from its segments.\<close>

fun dotted :: "string list \<Rightarrow> string" where
  "dotted [] = []"
| "dotted [s] = s"
| "dotted (s # s' # ss) = s @ ''.'' @ dotted (s' # ss)"

definition sources :: "file_tree \<Rightarrow> (string \<times> string) list" where
  "sources t =
     concat (map (\<lambda>app_dir. concat (map (\<lambda>rel_path.
         if suffix ''.py'' rel_path then
           (case read_text t rel_path of
              Content text \<Rightarrow> [(rel_path, text)]
            | IOError \<Rightarrow> []
            | UnicodeDecodeError \<Rightarrow> [])
         else []) (walk_files t app_dir))) (project_dirs t))"

definition source_lines :: "file_tree \<Rightarrow> (string \<times> nat \<times> string) list" where
  "source_lines t =
     concat (map (\<lambda>(rel_path, text).
        map (\<lambda>(line_num, ln). (rel_path, line_num, ln)) (enumerate 1 (split_on (CHR 0x0A) text)))
       (sources t))"

definition record_items :: "category \<Rightarrow> item list \<Rightarrow> analyzer \<Rightarrow> analyzer" where
  "record_items c xs self = self\<lparr>results := (results self)(c := results self c @ xs)\<rparr>"

definition line_items :: "file_tree \<Rightarrow> regex list \<Rightarrow> (string \<Rightarrow> bool) \<Rightarrow> string \<Rightarrow> item list" where
  "line_items t patterns ok pre =
     concat (map (\<lambda>(rel_path, line_num, ln).
        concat (map (\<lambda>pattern. if re_search pattern ln \<and> ok ln
                               then [LineItem rel_path line_num (pre @ strip ln)] else []) patterns))
       (source_lines t))"

definition import_items :: "file_tree \<Rightarrow> regex list \<Rightarrow> item list" where
  "import_items t patterns =
     concat (map (\<lambda>(rel_path, text).
        concat (map (\<lambda>pattern. case findall pattern text of [] \<Rightarrow> []
                               | first # rest \<Rightarrow> [ImportItem rel_path first]) patterns))
       (sources t))"

definition dynamic_items :: "string \<Rightarrow> string \<Rightarrow> string \<Rightarrow> item list" where
  "dynamic_items cls rel_path text =
     concat (map (\<lambda>m. if sublist cls (group1 m)
        then [LineItem rel_path (count_list (take (group1_start text m) text) (CHR 0x0A) + 1)
                (''Dynamic selection in get_serializer_class: '' @ strip (group1 m))]
        else []) (finditer get_serializer_pattern False text))"

definition file_line_items :: "regex list \<Rightarrow> string \<Rightarrow> string \<Rightarrow> item list" where
  "file_line_items patterns rel_path text =
     concat (map (\<lambda>(line_num, ln).
        concat (map (\<lambda>pattern. if re_search pattern ln
                               then [LineItem rel_path line_num (strip ln)] else []) patterns))
       (enumerate 1 (split_on (CHR 0x0A) text)))"

definition declaration_items :: "file_tree \<Rightarrow> string \<Rightarrow> item list" where
  "declaration_items t cls =
     concat (map (\<lambda>(rel_path, text).
        file_line_items (declaration_patterns cls) rel_path text @ dynamic_items cls rel_path text)
       (sources t))"

definition parent_items :: "file_tree \<Rightarrow> analyzer \<Rightarrow> item list" where
  "parent_items t s =
     concat (map (\<lambda>parent.
        line_items t [seq [Lit parent, Lit ''.'', Lit (serializer_name s)]] (\<lambda>ln. True)
          ''Used through parent: '')
       (find_potential_parent_serializers t s))"

definition item_key :: "item \<Rightarrow> string \<times> nat" where
  "item_key x = (item_file x, item_line x)"

fun keep_first :: "item list \<Rightarrow> item list" where
  "keep_first [] = []"
| "keep_first (x # xs) = x # keep_first (filter (\<lambda>y. item_key y \<noteq> item_key x) xs)"

definition no_class_no_eq :: "string \<Rightarrow> bool" where
  "no_class_no_eq ln \<longleftrightarrow> \<not> sublist ''class'' ln \<and> \<not> sublist ''='' ln"

definition gathered :: "file_tree \<Rightarrow> analyzer \<Rightarrow> item list \<Rightarrow> category \<Rightarrow> item list" where
  "gathered t self inst c =
     (case c of
        direct_imports \<Rightarrow>
          import_items t (import_patterns (app_name self) (file_name self) (serializer_name self))
      | serializer_class_declarations \<Rightarrow>
          declaration_items t (serializer_name self) @ parent_items t self
      | field_usages \<Rightarrow> line_items t (field_patterns (serializer_name self)) (\<lambda>ln. True) []
      | serializer_inheritance \<Rightarrow>
          line_items t [inheritance_pattern (serializer_name self)] (\<lambda>ln. True) []
      | direct_instantiations \<Rightarrow> inst
      | many_true_usages \<Rightarrow> line_items t (many_true_patterns (serializer_name self)) (\<lambda>ln. True) []
      | inner_class_usages \<Rightarrow>
          line_items t [inner_class_pattern (serializer_name self)]
            (\<lambda>ln. \<not> sublist ''serializer_class'' ln) []
      | meta_class_references \<Rightarrow>
          line_items t [meta_pattern (serializer_name self)] (\<lambda>ln. True) [])"

definition conc :: "string set \<Rightarrow> string set \<Rightarrow> string set" where
  "conc A B = {u @ v | u v. u \<in> A \<and> v \<in> B}"

primrec lang :: "regex \<Rightarrow> string set" where
  "lang Eps = {[]}"
| "lang (Lit w) = {w}"
| "lang (One P) = {[c] | c. P c}"
| "lang (Many P m greedy) = {u. m \<le> length u \<and> (\<forall>c \<in> set u. P c)}"
| "lang (Seq a b) = conc (lang a) (lang b)"
| "lang (Alt a b) = lang a \<union> lang b"
| "lang (Group r) = lang r"

definition example_tree :: file_tree where
  "example_tree =
     \<lparr>project_dirs = [''app''],
      walk_files = (\<lambda>d. if d = ''app'' then [''app/views.py'', ''app/notes.txt'', ''app/broken.py''] else []),
      read_text = (\<lambda>p.
        if p = ''app/views.py'' then
          Content (''from app.serializers import UserSerializer'' @ [CHR 0x0A] @
                   ''    serializer_class = UserSerializer'' @ [CHR 0x0A] @
                   ''    profile = UserSerializer(many=True)'' @ [CHR 0x0A] @
                   ''serializer_class = UserSerializer'' @ [CHR 0x0A] @
                   ''profile = UserSerializer(many=True)'' @ [CHR 0x0A] @
                   ''class Meta(UserSerializer.Meta):'' @ [CHR 0x0A] @
                   ''UserSerializer(classify(x))'')
        else if p = ''app/broken.py'' then UnicodeDecodeError
        else IOError)\<rparr>"

definition example_analyzer :: analyzer where
  "example_analyzer =
     \<lparr>serializer_path = ''app.views.UserSerializer'', app_name = ''app'', file_name = ''views'',
      serializer_name = ''UserSerializer'', serializer_class = False, results = (\<lambda>c. []),
      seen_results = {}\<rparr>"

definition without_file :: "string \<Rightarrow> file_tree \<Rightarrow> file_tree" where
  "without_file p t =
     t\<lparr>walk_files := (\<lambda>d. removeAll p (walk_files t d)), read_text := (read_text t)(p := IOError)\<rparr>"

definition foo_tree :: file_tree where
  "foo_tree =
     \<lparr>project_dirs = [''app''],
      walk_files = (\<lambda>d. if d = ''app'' then [''app/models.py''] else []),
      read_text = (\<lambda>p. if p = ''app/models.py''
                          then Content (''class Foo(FooBase):'' @ [CHR 0x0A] @
                                        ''class Foo(BaseSerializer):'' @ [CHR 0x0A] @
                                        ''class Bar(FooBar):'')
                          else IOError)\<rparr>"

definition foo_analyzer :: analyzer where
  "foo_analyzer =
     \<lparr>serializer_path = ''app.models.Foo'', app_name = ''app'', file_name = ''models'',
      serializer_name = ''Foo'', serializer_class = False, results = (\<lambda>c. []),
      seen_results = {}\<rparr>"

text \<open>
  What one round of the loop adds to \<open>all_results\<close>: nothing when the constructor or the
  scan raised, and otherwise the one result whose \<open>total_usages\<close> is the sum of the
  lengths of the eight categories, written out category by category as in the \<open>sum\<close>
  of \<open>handle\<close>. The batch example has one file read by every scan and six candidates:
  one whose path has a single segment, one whose name holds \<open>(\<close>, and four whose scans
  complete.
\<close>

definition candidate_result ::
  "(file_tree \<Rightarrow> analyzer \<Rightarrow> scan_result option) \<Rightarrow> file_tree \<Rightarrow> candidate \<Rightarrow> serializer_result list" where
  "candidate_result beyond t serializer =
     (case SerializerUsageAnalyzer (path serializer) of
        Inl e \<Rightarrow> []
      | Inr analyzer \<Rightarrow>
          (case run_analysis beyond t analyzer of
             None \<Rightarrow> []
           | Some res \<Rightarrow>
               [\<lparr>name = name serializer, path = path serializer, rel_file = rel_file serializer,
                 total_usages =
                   length (res direct_imports) + length (res serializer_class_declarations) +
                   length (res field_usages) + length (res serializer_inheritance) +
                   length (res direct_instantiations) + length (res many_true_usages) +
                   length (res inner_class_usages) + length (res meta_class_references),
                 details = res\<rparr>]))"

definition batch_tree :: file_tree where
  "batch_tree =
     \<lparr>project_dirs = [''app''],
      walk_files = (\<lambda>d. if d = ''app'' then [''app/views.py''] else []),
      read_text = (\<lambda>p. if p = ''app/views.py''
                          then Content (''class V(BSerializer):'' @ [CHR 0x0A] @
                                        ''class W(DSerializer):'' @ [CHR 0x0A] @
                                        ''x = ASerializer.Meta'' @ [CHR 0x0A] @
                                        ''class U(ASerializer):'')
                          else IOError)\<rparr>"

definition batch_analyzer :: "string \<Rightarrow> analyzer" where
  "batch_analyzer cls =
     \<lparr>serializer_path = ''app.views.'' @ cls, app_name = ''app'', file_name = ''views'',
      serializer_name = cls, serializer_class = False, results = (\<lambda>c. []), seen_results = {}\<rparr>"

definition batch_candidate :: "string \<Rightarrow> candidate" where
  "batch_candidate cls = \<lparr>name = cls, path = ''app.views.'' @ cls, rel_file = ''app/views.py''\<rparr>"

definition batch_candidates :: "candidate list" where
  "batch_candidates =
     [batch_candidate ''ASerializer'',
      \<lparr>name = ''XSerializer'', path = ''XSerializer'', rel_file = ''x.py''\<rparr>,
      batch_candidate ''BSerializer'',
      batch_candidate ''CSerializer'',
      batch_candidate ''E(Serializer'',
      batch_candidate ''DSerializer'']"

definition all_categories :: "category list" where
  "all_categories = [direct_imports, serializer_class_declarations, field_usages,
     serializer_inheritance, direct_instantiations, many_true_usages, inner_class_usages,
     meta_class_references]"

section \<open>Properties of PathResolver\<close>

lemma split_on_nonempty: "split_on d s \<noteq> []"
  by (induction s) (auto split: list.splits)

lemma length_split_on: "length (split_on d s) = count_list s d + 1"
proof (induction s)
  case Nil
  show ?case by simp
next
  case (Cons c cs)
  then show ?case using split_on_nonempty [of d cs]
    by (cases "split_on d cs") auto
qed

lemma split_on_no_sep: "d \<notin> set s \<Longrightarrow> split_on d s = [s]"
  by (induction s) auto

lemma split_on_append: "d \<notin> set s \<Longrightarrow> split_on d (s @ d # rest) = s # split_on d rest"
  by (induction s) auto

lemma split_on_dotted:
  "segs \<noteq> [] \<Longrightarrow> \<forall>s \<in> set segs. CHR ''.'' \<notin> set s \<Longrightarrow> split_on CHR ''.'' (dotted segs) = segs"
proof (induction segs rule: dotted.induct)
  case 1
  then show ?case by simp
next
  case (2 s)
  then show ?case by (simp add: split_on_no_sep)
next
  case (3 s s' ss)
  then show ?case by (simp add: split_on_append)
qed

text \<open>
  C3. A dotted path of exactly three segments \<open>g.m.c\<close> resolves to group \<open>g\<close>, module
  \<open>m\<close> and class name \<open>c\<close>; a dotted path of more than three segments resolves to its
  first segment as group, its second-to-last segment as module and its last segment
  as class name.
\<close>

theorem parse_serializer_path_segments:
  "(CHR ''.'' \<notin> set g \<and> CHR ''.'' \<notin> set m \<and> CHR ''.'' \<notin> set c \<longrightarrow>
      parse_serializer_path (dotted [g, m, c]) = Inr (g, m, c)) \<and>
   (length segs > 3 \<and> (\<forall>s \<in> set segs. CHR ''.'' \<notin> set s) \<longrightarrow>
      parse_serializer_path (dotted segs) = Inr (hd segs, segs ! (length segs - 2), last segs))"
proof (intro conjI impI)
  assume a: "CHR ''.'' \<notin> set g \<and> CHR ''.'' \<notin> set m \<and> CHR ''.'' \<notin> set c"
  then have "split_on CHR ''.'' (dotted [g, m, c]) = [g, m, c]"
    by (intro split_on_dotted) auto
  then show "parse_serializer_path (dotted [g, m, c]) = Inr (g, m, c)"
    by (simp add: parse_serializer_path_def)
next
  assume a: "length segs > 3 \<and> (\<forall>s \<in> set segs. CHR ''.'' \<notin> set s)"
  then have ne: "segs \<noteq> []" by auto
  with a have "split_on CHR ''.'' (dotted segs) = segs"
    by (intro split_on_dotted) auto
  with a ne show "parse_serializer_path (dotted segs) = Inr (hd segs, segs ! (length segs - 2), last segs)"
    by (simp add: parse_serializer_path_def hd_conv_nth)
qed

theorem parse_serializer_path_segments_witness:
  "parse_serializer_path ''g.m.c'' = Inr (''g'', ''m'', ''c'') \<and>
   parse_serializer_path ''g.p1.p2.m.c'' = Inr (''g'', ''m'', ''c'')"
  using parse_serializer_path_segments [of "''g''" "''m''" "''c''" "[''g'', ''p1'', ''p2'', ''m'', ''c'']"]
  by simp

text \<open>
  C7. The resolver fails with the invalid-reference error (\<open>ValueError\<close>) exactly when
  the path has fewer than three segments, that is fewer than two dots; with three or
  more segments it succeeds whatever the segments are, empty ones included.
\<close>

theorem parse_serializer_path_fails_iff:
  "(parse_serializer_path s = Inl ValueError \<longleftrightarrow> count_list s CHR ''.'' + 1 < 3) \<and>
   (3 \<le> count_list s CHR ''.'' + 1 \<longrightarrow> (\<exists>g m c. parse_serializer_path s = Inr (g, m, c))) \<and>
   parse_serializer_path ''..'' = Inr ([], [], [])"
proof (intro conjI impI)
  show "parse_serializer_path s = Inl ValueError \<longleftrightarrow> count_list s CHR ''.'' + 1 < 3"
    by (auto simp: parse_serializer_path_def Let_def length_split_on)
  show "\<exists>g m c. parse_serializer_path s = Inr (g, m, c)" if "3 \<le> count_list s CHR ''.'' + 1"
    using that by (auto simp: parse_serializer_path_def Let_def length_split_on)
  show "parse_serializer_path ''..'' = Inr ([], [], [])"
    by (simp add: parse_serializer_path_def)
qed

theorem parse_serializer_path_fails_iff_witness:
  "parse_serializer_path ''a.b'' = Inl ValueError \<and> parse_serializer_path ''a'' = Inl ValueError \<and>
   (\<exists>g m c. parse_serializer_path ''a..b'' = Inr (g, m, c))"
  using parse_serializer_path_fails_iff [of "''a.b''"] parse_serializer_path_fails_iff [of "''a''"]
    parse_serializer_path_fails_iff [of "''a..b''"]
  by simp

section \<open>Properties of the scan\<close>

lemma fold_fold_concat: "fold (\<lambda>x. fold f (g x)) xs = fold f (concat (map g xs))"
  by (induction xs) (auto simp: fun_eq_iff)

lemma for_each_source_sources: "for_each_source t body = fold (\<lambda>(p, c). body p c) (sources t)"
proof -
  let ?g = "\<lambda>rel_path. if suffix ''.py'' rel_path then
           (case read_text t rel_path of Content text \<Rightarrow> [(rel_path, text)] | IOError \<Rightarrow> []
            | UnicodeDecodeError \<Rightarrow> []) else []"
  have inner: "(\<lambda>rel_path st. if suffix ''.py'' rel_path then
               (case read_text t rel_path of Content text \<Rightarrow> body rel_path text st
                | IOError \<Rightarrow> st | UnicodeDecodeError \<Rightarrow> st) else st)
             = (\<lambda>rel_path. fold (\<lambda>(p, c). body p c) (?g rel_path))"
    by (auto simp: fun_eq_iff split: read_result.splits)
  show ?thesis
    unfolding for_each_source_def sources_def inner
    by (simp add: fold_fold_concat)
qed

lemma for_each_line_fold:
  "for_each_source t (\<lambda>p c. for_each_line c (body p)) = fold (\<lambda>(p, n, l). body p n l) (source_lines t)"
proof -
  have "(\<lambda>(p, c). for_each_line c (body p))
      = (\<lambda>x. fold (\<lambda>(p, n, l). body p n l)
                 ((\<lambda>(rel_path, text). map (\<lambda>(line_num, ln). (rel_path, line_num, ln))
                       (enumerate 1 (split_on (CHR 0x0A) text))) x))"
    by (auto simp: fun_eq_iff for_each_line_def fold_map comp_def case_prod_unfold)
  then show ?thesis
    by (simp add: for_each_source_sources source_lines_def fold_fold_concat)
qed

lemma record_items_Nil [simp]: "record_items c [] s = s"
  by (simp add: record_items_def)

lemma record_items_append [simp]: "record_items c ys (record_items c xs s) = record_items c (xs @ ys) s"
  by (simp add: record_items_def)

lemma record_item_items: "record_item c x = record_items c [x]"
  by (simp add: record_item_def record_items_def fun_eq_iff)

lemma fold_record_items:
  "fold (\<lambda>x. record_items c (g x)) xs = record_items c (concat (map g xs))"
proof
  fix s
  show "fold (\<lambda>x. record_items c (g x)) xs s = record_items c (concat (map g xs)) s"
    by (induction xs arbitrary: s) auto
qed

lemma fold_cond_record:
  "fold (\<lambda>x st. if P x then record_item c (h x) st else st) xs
     = record_items c (concat (map (\<lambda>x. if P x then [h x] else []) xs))"
proof -
  have "(\<lambda>x st. if P x then record_item c (h x) st else st)
      = (\<lambda>x. record_items c (if P x then [h x] else []))"
    by (auto simp: fun_eq_iff record_item_items)
  then show ?thesis by (simp add: fold_record_items)
qed

lemma fold_case_record:
  "fold (\<lambda>x st. case f x of [] \<Rightarrow> st | y # ys \<Rightarrow> record_item c (h x y) st) xs
     = record_items c (concat (map (\<lambda>x. case f x of [] \<Rightarrow> [] | y # ys \<Rightarrow> [h x y]) xs))"
proof -
  have "(\<lambda>x st. case f x of [] \<Rightarrow> st | y # ys \<Rightarrow> record_item c (h x y) st)
      = (\<lambda>x. record_items c (case f x of [] \<Rightarrow> [] | y # ys \<Rightarrow> [h x y]))"
    by (auto simp: fun_eq_iff record_item_items split: list.splits)
  then show ?thesis by (simp add: fold_record_items)
qed

lemma fold_prod_record_items:
  "fold (\<lambda>(p, q). record_items c (g p q)) xs = record_items c (concat (map (\<lambda>(p, q). g p q) xs))"
  using fold_record_items [of c "\<lambda>x. g (fst x) (snd x)" xs] by (simp add: case_prod_unfold)

lemma fold_triple_record_items:
  "fold (\<lambda>(p, n, l). record_items c (g p n l)) xs = record_items c (concat (map (\<lambda>(p, n, l). g p n l) xs))"
  using fold_record_items [of c "\<lambda>x. g (fst x) (fst (snd x)) (snd (snd x))" xs] by (simp add: case_prod_unfold)

lemma fold_triple_cond_record:
  "fold (\<lambda>(p, n, l) st. if P p n l then record_item c (h p n l) st else st) xs
     = record_items c (concat (map (\<lambda>(p, n, l). if P p n l then [h p n l] else []) xs))"
  using fold_cond_record [of "\<lambda>x. P (fst x) (fst (snd x)) (snd (snd x))" c
      "\<lambda>x. h (fst x) (fst (snd x)) (snd (snd x))" xs]
  by (simp add: case_prod_unfold)

lemma scan_lines_items: "scan_lines t c ps ok s = record_items c (line_items t ps ok []) s"
  unfolding scan_lines_def for_each_line_fold line_items_def
  by (simp add: fold_cond_record fold_triple_record_items cong: if_cong)

lemma scan_for_direct_imports_items:
  "scan_for_direct_imports t s =
     record_items direct_imports
       (import_items t (import_patterns (app_name s) (file_name s) (serializer_name s))) s"
  unfolding scan_for_direct_imports_def for_each_source_sources import_items_def
  by (simp add: fold_case_record fold_prod_record_items)

lemma scan_for_serializer_class_declarations_items:
  "scan_for_serializer_class_declarations t s =
     record_items serializer_class_declarations (declaration_items t (serializer_name s)) s"
  unfolding scan_for_serializer_class_declarations_def for_each_source_sources
    declaration_items_def for_each_line_def file_line_items_def dynamic_items_def Let_def
  by (simp add: fold_cond_record fold_prod_record_items)

lemma scan_for_parent_serializer_usages_items:
  "scan_for_parent_serializer_usages t s =
     record_items serializer_class_declarations (parent_items t s) s"
  unfolding scan_for_parent_serializer_usages_def Let_def for_each_line_fold parent_items_def
    line_items_def
  by (simp add: fold_triple_cond_record fold_record_items)

lemma dedup_loop_keep_first:
  "dedup_loop seen acc xs = acc @ keep_first (filter (\<lambda>y. item_key y \<notin> seen) xs)"
proof (induction xs arbitrary: seen acc)
  case Nil
  show ?case by simp
next
  case (Cons x xs)
  have eq: "filter (\<lambda>y. item_key y \<notin> insert (item_key x) seen) xs
          = filter (\<lambda>y. item_key y \<noteq> item_key x) (filter (\<lambda>y. item_key y \<notin> seen) xs)"
    by (induction xs) auto
  show ?case
  proof (cases "item_key x \<in> seen")
    case True
    then show ?thesis using Cons.IH [of seen acc] by (simp add: item_key_def)
  next
    case False
    then show ?thesis
      using Cons.IH [of "insert (item_key x) seen" "acc @ [x]"] eq
      by (simp add: item_key_def [symmetric])
  qed
qed

lemma dedup_loop_empty: "dedup_loop {} [] xs = keep_first xs"
  by (simp add: dedup_loop_keep_first)

lemma keep_first_filter:
  "keep_first (filter (\<lambda>y. item_key y \<noteq> k) xs) = filter (\<lambda>y. item_key y \<noteq> k) (keep_first xs)"
proof (induction xs rule: keep_first.induct)
  case 1
  show ?case by simp
next
  case (2 x xs)
  have comm: "filter (\<lambda>y. item_key y \<noteq> item_key x) (filter (\<lambda>y. item_key y \<noteq> k) xs)
            = filter (\<lambda>y. item_key y \<noteq> k) (filter (\<lambda>y. item_key y \<noteq> item_key x) xs)"
    by (induction xs) auto
  show ?case
  proof (cases "item_key x = k")
    case True
    then show ?thesis using 2 by simp
  next
    case False
    then show ?thesis using 2 comm by simp
  qed
qed

lemma set_keep_first_subset: "set (keep_first xs) \<subseteq> set xs"
  by (induction xs rule: keep_first.induct) auto

lemma keys_keep_first: "item_key ` set (keep_first xs) = item_key ` set xs"
proof (induction xs rule: keep_first.induct)
  case 1
  show ?case by simp
next
  case (2 x xs)
  then show ?case by auto
qed

lemma distinct_keys_keep_first: "distinct (map item_key (keep_first xs))"
proof (induction xs rule: keep_first.induct)
  case 1
  show ?case by simp
next
  case (2 x xs)
  have "item_key x \<notin> item_key ` set (keep_first (filter (\<lambda>y. item_key y \<noteq> item_key x) xs))"
    unfolding keys_keep_first by auto
  with 2 show ?case by simp
qed

lemma subseq_keep_first: "subseq (keep_first xs) xs"
proof (induction xs rule: keep_first.induct)
  case 1
  show ?case by simp
next
  case (2 x xs)
  have "subseq (filter (\<lambda>y. item_key y \<noteq> item_key x) xs) xs" by simp
  with 2 have "subseq (keep_first (filter (\<lambda>y. item_key y \<noteq> item_key x) xs)) xs"
    using subseq_order.trans by blast
  then show ?case by simp
qed

lemma count_key_distinct:
  "distinct (map item_key ys) \<Longrightarrow>
     length (filter (\<lambda>y. item_key y = k) ys) = (if k \<in> item_key ` set ys then 1 else 0)"
  by (induction ys) auto

lemma count_key_keep_first:
  "length (filter (\<lambda>y. item_key y = k) (keep_first xs)) = (if k \<in> item_key ` set xs then 1 else 0)"
  using count_key_distinct [OF distinct_keys_keep_first, of k xs] keys_keep_first [of xs] by simp

lemma find_filter_weaker: "(\<And>y. P y \<Longrightarrow> Q y) \<Longrightarrow> find P (filter Q ys) = find P ys"
  by (induction ys) auto

lemma keep_first_is_first:
  "x \<in> set (keep_first xs) \<Longrightarrow> find (\<lambda>y. item_key y = item_key x) xs = Some x"
proof (induction xs rule: keep_first.induct)
  case 1
  then show ?case by simp
next
  case (2 y ys)
  show ?case
  proof (cases "x = y")
    case True
    then show ?thesis by simp
  next
    case False
    with 2 have mem: "x \<in> set (keep_first (filter (\<lambda>z. item_key z \<noteq> item_key y) ys))" by simp
    then have "x \<in> set (filter (\<lambda>z. item_key z \<noteq> item_key y) ys)"
      using set_keep_first_subset by blast
    then have ne: "item_key x \<noteq> item_key y" by simp
    from 2 mem have "find (\<lambda>z. item_key z = item_key x) (filter (\<lambda>z. item_key z \<noteq> item_key y) ys) = Some x"
      by blast
    moreover have "find (\<lambda>z. item_key z = item_key x) (filter (\<lambda>z. item_key z \<noteq> item_key y) ys)
        = find (\<lambda>z. item_key z = item_key x) ys"
      using ne by (intro find_filter_weaker) auto
    ultimately show ?thesis using ne by simp
  qed
qed

lemma in_line_items:
  "i \<in> set (line_items t ps ok pre) \<longleftrightarrow>
     (\<exists>(p, n, l) \<in> set (source_lines t). (\<exists>pat \<in> set ps. re_search pat l) \<and> ok l \<and>
        i = LineItem p n (pre @ strip l))"
  by (auto simp: line_items_def split: if_splits)

lemma fold_invariant:
  assumes "I s" and "\<And>x s. x \<in> set xs \<Longrightarrow> I s \<Longrightarrow> I (f x s)"
  shows "I (fold f xs s)"
  using assms by (induction xs arbitrary: s) auto

lemma scan_for_direct_instantiations_items:
  "\<exists>Y seen'. scan_for_direct_instantiations t s
       = record_items direct_instantiations Y (s\<lparr>seen_results := seen'\<rparr>) \<and>
     set Y \<subseteq> set (line_items t (instantiation_patterns (serializer_name s)) no_class_no_eq [])"
proof -
  let ?G = "set (line_items t (instantiation_patterns (serializer_name s)) no_class_no_eq [])"
  let ?I = "\<lambda>st. \<exists>Y seen'. st = record_items direct_instantiations Y (s\<lparr>seen_results := seen'\<rparr>) \<and> set Y \<subseteq> ?G"
  let ?inner = "\<lambda>p n l. (\<lambda>pattern st.
           if re_search pattern l \<and> \<not> sublist ''class'' l \<and> \<not> sublist ''='' l
           then (let key = (p, n, strip l) in
                 if key \<notin> seen_results st
                 then record_item direct_instantiations (LineItem p n (strip l))
                        (st\<lparr>seen_results := insert key (seen_results st)\<rparr>)
                 else st)
           else st)"
  have init: "?I s"
  proof -
    have "s = record_items direct_instantiations [] (s\<lparr>seen_results := seen_results s\<rparr>) \<and> set [] \<subseteq> ?G"
      by simp
    then show ?thesis by blast
  qed
  have step: "?I (?inner p n l pattern st)"
    if x: "(p, n, l) \<in> set (source_lines t)"
      and pat: "pattern \<in> set (instantiation_patterns (serializer_name s))"
      and inv: "?I st" for p n l pattern st
  proof (cases "re_search pattern l \<and> \<not> sublist ''class'' l \<and> \<not> sublist ''='' l \<and> (p, n, strip l) \<notin> seen_results st")
    case False
    then show ?thesis using inv by (auto simp: Let_def)
  next
    case True
    from inv obtain Y seen' where
      st: "st = record_items direct_instantiations Y (s\<lparr>seen_results := seen'\<rparr>)" and Y: "set Y \<subseteq> ?G"
      by blast
    have mem: "LineItem p n (strip l) \<in> ?G"
      using x pat True by (auto simp: in_line_items no_class_no_eq_def)
    have "?inner p n l pattern st
        = record_items direct_instantiations (Y @ [LineItem p n (strip l)])
            (s\<lparr>seen_results := insert (p, n, strip l) seen'\<rparr>)"
      using True by (simp add: st Let_def record_item_def record_items_def)
    moreover have "set (Y @ [LineItem p n (strip l)]) \<subseteq> ?G" using Y mem by simp
    ultimately show ?thesis by blast
  qed
  have "?I (fold (\<lambda>(p, n, l). fold (?inner p n l) (instantiation_patterns (serializer_name s)))
              (source_lines t) s)"
  proof (rule fold_invariant [where I = ?I, OF init], goal_cases)
    case (1 x st)
    obtain p n l where x: "x = (p, n, l)" by (cases x) auto
    have "?I (fold (?inner p n l) (instantiation_patterns (serializer_name s)) st)"
      by (rule fold_invariant [where I = ?I, OF 1(2)]) (use 1(1) x step in blast)
    then show ?case by (simp add: x)
  qed
  then show ?thesis
    unfolding scan_for_direct_instantiations_def for_each_line_fold .
qed

lemma results_record_items:
  "results (record_items c xs s) c' = (if c' = c then results s c @ xs else results s c')"
  by (simp add: record_items_def)

lemma names_record_items [simp]:
  "serializer_name (record_items c xs s) = serializer_name s"
  "app_name (record_items c xs s) = app_name s"
  "file_name (record_items c xs s) = file_name s"
  by (simp_all add: record_items_def)

lemma find_serializer_in_file_state:
  "snd (find_serializer_in_file t s) = s \<or> snd (find_serializer_in_file t s) = s\<lparr>serializer_class := True\<rparr>"
  by (simp add: find_serializer_in_file_def Let_def)

lemma parent_items_cong:
  "serializer_name s' = serializer_name s \<Longrightarrow> parent_items t s' = parent_items t s"
  by (simp add: parent_items_def find_potential_parent_serializers_def)

lemma gathered_cong:
  "serializer_name s' = serializer_name s \<Longrightarrow> app_name s' = app_name s \<Longrightarrow>
   file_name s' = file_name s \<Longrightarrow> gathered t s' inst = gathered t s inst"
  by (simp add: gathered_def fun_eq_iff parent_items_cong [of s' s] split: category.splits)

lemma passes_gathered:
  "\<exists>inst. set inst \<subseteq> set (line_items t (instantiation_patterns (serializer_name s0)) no_class_no_eq []) \<and>
     (\<forall>c. results (scan_for_parent_serializer_usages t (scan_for_meta_class_references t
            (scan_for_inner_class_usages t (scan_for_many_true_usages t
              (scan_for_direct_instantiations t (scan_for_serializer_inheritance t
                (scan_for_field_usages t (scan_for_serializer_class_declarations t
                  (scan_for_direct_imports t s0))))))))) c
        = results s0 c @ gathered t s0 inst c)"
proof -
  define s4 where "s4 = scan_for_serializer_inheritance t (scan_for_field_usages t
      (scan_for_serializer_class_declarations t (scan_for_direct_imports t s0)))"
  have s4: "s4 = record_items serializer_inheritance (gathered t s0 [] serializer_inheritance)
             (record_items field_usages (gathered t s0 [] field_usages)
               (record_items serializer_class_declarations (declaration_items t (serializer_name s0))
                 (record_items direct_imports (gathered t s0 [] direct_imports) s0)))"
    unfolding s4_def
    by (simp add: scan_for_serializer_inheritance_def scan_for_field_usages_def scan_lines_items
        scan_for_serializer_class_declarations_items scan_for_direct_imports_items gathered_def)
  have n4: "serializer_name s4 = serializer_name s0" by (simp add: s4)
  define s5 where "s5 = scan_for_direct_instantiations t s4"
  obtain inst seen' where
    s5: "s5 = record_items direct_instantiations inst (s4\<lparr>seen_results := seen'\<rparr>)"
    and inst: "set inst \<subseteq> set (line_items t (instantiation_patterns (serializer_name s0)) no_class_no_eq [])"
    using scan_for_direct_instantiations_items [of t s4] n4 unfolding s5_def by auto
  have n5: "serializer_name s5 = serializer_name s0"
    by (simp add: s5 record_items_def n4)
  have r5: "results s5 c = (if c = direct_instantiations then results s4 c @ inst else results s4 c)" for c
    by (simp add: s5 record_items_def)
  define s8 where "s8 = scan_for_meta_class_references t (scan_for_inner_class_usages t
      (scan_for_many_true_usages t s5))"
  have s8: "s8 = record_items meta_class_references (gathered t s0 [] meta_class_references)
             (record_items inner_class_usages (gathered t s0 [] inner_class_usages)
               (record_items many_true_usages (gathered t s0 [] many_true_usages) s5))"
    unfolding s8_def
    by (simp add: scan_for_meta_class_references_def scan_for_inner_class_usages_def
        scan_for_many_true_usages_def scan_lines_items gathered_def n5)
  have n8: "serializer_name s8 = serializer_name s0" by (simp add: s8 n5)
  have s9: "scan_for_parent_serializer_usages t s8
      = record_items serializer_class_declarations (parent_items t s0) s8"
    by (simp add: scan_for_parent_serializer_usages_items parent_items_cong [OF n8])
  have res: "results (scan_for_parent_serializer_usages t s8) c = results s0 c @ gathered t s0 inst c" for c
    unfolding s9
    by (cases c) (simp_all add: results_record_items s8 r5 s4 gathered_def)
  show ?thesis
  proof (intro exI conjI allI)
    show "set inst \<subseteq> set (line_items t (instantiation_patterns (serializer_name s0)) no_class_no_eq [])"
      by (rule inst)
  next
    fix c
    show "results (scan_for_parent_serializer_usages t (scan_for_meta_class_references t
            (scan_for_inner_class_usages t (scan_for_many_true_usages t
              (scan_for_direct_instantiations t (scan_for_serializer_inheritance t
                (scan_for_field_usages t (scan_for_serializer_class_declarations t
                  (scan_for_direct_imports t s0))))))))) c
        = results s0 c @ gathered t s0 inst c"
      using res [of c] unfolding s8_def s5_def s4_def .
  qed
qed

lemma analyze_gathered:
  "\<exists>inst. set inst \<subseteq> set (line_items t (instantiation_patterns (serializer_name self)) no_class_no_eq []) \<and>
     analyze t self = (\<lambda>c. keep_first (results self c @ gathered t self inst c))"
proof -
  obtain found s0 where f: "find_serializer_in_file t self = (found, s0)"
    by (cases "find_serializer_in_file t self") auto
  then have "s0 = self \<or> s0 = self\<lparr>serializer_class := True\<rparr>"
    using find_serializer_in_file_state [of t self] by simp
  then have s0: "results s0 = results self" "serializer_name s0 = serializer_name self"
    "app_name s0 = app_name self" "file_name s0 = file_name self"
    by auto
  from passes_gathered [of t s0] obtain inst where
    inst: "set inst \<subseteq> set (line_items t (instantiation_patterns (serializer_name s0)) no_class_no_eq [])"
    and res: "\<And>c. results (scan_for_parent_serializer_usages t (scan_for_meta_class_references t
            (scan_for_inner_class_usages t (scan_for_many_true_usages t
              (scan_for_direct_instantiations t (scan_for_serializer_inheritance t
                (scan_for_field_usages t (scan_for_serializer_class_declarations t
                  (scan_for_direct_imports t s0))))))))) c
        = results s0 c @ gathered t s0 inst c"
    by blast
  have g: "gathered t s0 inst = gathered t self inst"
    by (rule gathered_cong [OF s0(2,3,4)])
  have "analyze t self c = keep_first (results self c @ gathered t self inst c)" for c
    unfolding analyze_def f prod.case Let_def deduplicate_results_def
    by (simp add: dedup_loop_empty res s0(1) g)
  then have "analyze t self = (\<lambda>c. keep_first (results self c @ gathered t self inst c))"
    by (rule ext)
  moreover have "set inst \<subseteq> set (line_items t (instantiation_patterns (serializer_name self)) no_class_no_eq [])"
    using inst s0(2) by simp
  ultimately show ?thesis by (intro exI conjI)
qed

lemma in_sources:
  "(p, c) \<in> set (sources t) \<longleftrightarrow>
     (\<exists>d \<in> set (project_dirs t). p \<in> set (walk_files t d)) \<and> suffix ''.py'' p \<and>
     read_text t p = Content c"
  unfolding sources_def
  by (auto split: if_splits read_result.splits)

lemma source_lines_iff:
  "(p, n, l) \<in> set (source_lines t) \<longleftrightarrow>
     (\<exists>c. (p, c) \<in> set (sources t) \<and> 0 < n \<and> n \<le> length (split_on (CHR 0x0A) c) \<and>
        l = split_on (CHR 0x0A) c ! (n - 1))"
proof
  assume "(p, n, l) \<in> set (source_lines t)"
  then obtain c where "(p, c) \<in> set (sources t)"
    "(n, l) \<in> set (enumerate 1 (split_on (CHR 0x0A) c))"
    unfolding source_lines_def by auto
  then show "\<exists>c. (p, c) \<in> set (sources t) \<and> 0 < n \<and> n \<le> length (split_on (CHR 0x0A) c) \<and>
        l = split_on (CHR 0x0A) c ! (n - 1)"
    by (auto simp: in_set_enumerate_eq)
next
  assume "\<exists>c. (p, c) \<in> set (sources t) \<and> 0 < n \<and> n \<le> length (split_on (CHR 0x0A) c) \<and>
        l = split_on (CHR 0x0A) c ! (n - 1)"
  then obtain c where c: "(p, c) \<in> set (sources t)" "0 < n" "n \<le> length (split_on (CHR 0x0A) c)"
    "l = split_on (CHR 0x0A) c ! (n - 1)" by blast
  then have "(n, l) \<in> set (enumerate 1 (split_on (CHR 0x0A) c))"
    by (auto simp: in_set_enumerate_eq)
  with c(1) show "(p, n, l) \<in> set (source_lines t)"
    unfolding source_lines_def by force
qed

lemma source_lines_functional:
  "(p, n, l) \<in> set (source_lines t) \<Longrightarrow> (p, n, l') \<in> set (source_lines t) \<Longrightarrow> l = l'"
  by (auto simp: source_lines_iff in_sources)

lemma takeWhile_prefix_all:
  "s = u @ s' \<Longrightarrow> \<forall>c \<in> set u. P c \<Longrightarrow> length u \<le> length (takeWhile P s)"
  by (induction u arbitrary: s) auto

lemma set_take_takeWhile: "i \<le> length (takeWhile P s) \<Longrightarrow> c \<in> set (take i s) \<Longrightarrow> P c"
proof -
  assume a: "i \<le> length (takeWhile P s)" "c \<in> set (take i s)"
  have "take i s = take i (takeWhile P s)"
    using a(1) by (metis takeWhile_dropWhile_id take_append diff_is_0_eq take_0 append_Nil2)
  with a(2) have "c \<in> set (takeWhile P s)" by (metis in_set_takeD)
  then show "P c" by (rule set_takeWhileD [THEN conjunct2])
qed

lemma set_rep_counts: "set (rep_counts m k g) = {i. m \<le> i \<and> i \<le> k}"
  by (auto simp: rep_counts_def)

lemma rmatch_lang:
  "fst ` set (rmatch r (s, g)) = {s'. \<exists>u \<in> lang r. s = u @ s'}"
proof (induction r arbitrary: s g)
  case Eps
  show ?case by auto
next
  case (Lit w)
  show ?case by (auto simp: prefix_def)
next
  case (One P)
  show ?case by (cases s) auto
next
  case (Many P m greedy)
  show ?case
  proof (intro set_eqI iffI)
    fix s'
    assume "s' \<in> fst ` set (rmatch (Many P m greedy) (s, g))"
    then obtain i where i: "m \<le> i" "i \<le> length (takeWhile P s)" "s' = drop i s"
      by (auto simp: set_rep_counts)
    have le: "length (takeWhile P s) \<le> length s" by (rule length_takeWhile_le)
    have "take i s \<in> lang (Many P m greedy)"
      using i le set_take_takeWhile [of i P s] by auto
    moreover have "s = take i s @ s'" using i by simp
    ultimately show "s' \<in> {s'. \<exists>u \<in> lang (Many P m greedy). s = u @ s'}" by blast
  next
    fix s'
    assume "s' \<in> {s'. \<exists>u \<in> lang (Many P m greedy). s = u @ s'}"
    then obtain u where u: "m \<le> length u" "\<forall>c \<in> set u. P c" "s = u @ s'" by auto
    then have "length u \<le> length (takeWhile P s)" using takeWhile_prefix_all by blast
    moreover have "s' = drop (length u) s" using u by simp
    ultimately show "s' \<in> fst ` set (rmatch (Many P m greedy) (s, g))"
      using u(1) by (auto simp: set_rep_counts image_iff)
  qed
next
  case (Seq a b)
  show ?case
  proof (intro set_eqI iffI)
    fix s'
    assume "s' \<in> fst ` set (rmatch (Seq a b) (s, g))"
    then obtain m g' where m: "m \<in> set (rmatch a (s, g))" "(s', g') \<in> set (rmatch b m)"
      by auto
    obtain s1 g1 where m1: "m = (s1, g1)" by (cases m) auto
    from m(1) m1 have "s1 \<in> fst ` set (rmatch a (s, g))" by force
    then obtain u where u: "u \<in> lang a" "s = u @ s1" using Seq.IH(1) by auto
    from m(2) m1 have "s' \<in> fst ` set (rmatch b (s1, g1))" by force
    then obtain v where v: "v \<in> lang b" "s1 = v @ s'" using Seq.IH(2) by auto
    from u v have "u @ v \<in> lang (Seq a b)" "s = (u @ v) @ s'" by (auto simp: conc_def)
    then show "s' \<in> {s'. \<exists>u \<in> lang (Seq a b). s = u @ s'}" by blast
  next
    fix s'
    assume "s' \<in> {s'. \<exists>u \<in> lang (Seq a b). s = u @ s'}"
    then obtain u v where uv: "u \<in> lang a" "v \<in> lang b" "s = (u @ v) @ s'"
      by (auto simp: conc_def)
    then have "v @ s' \<in> fst ` set (rmatch a (s, g))" using Seq.IH(1) [of s g] by auto
    then obtain g1 where g1: "(v @ s', g1) \<in> set (rmatch a (s, g))" by auto
    have "s' \<in> fst ` set (rmatch b (v @ s', g1))" using Seq.IH(2) [of "v @ s'" g1] uv(2) by auto
    then obtain g2 where "(s', g2) \<in> set (rmatch b (v @ s', g1))" by auto
    with g1 have "(s', g2) \<in> set (rmatch (Seq a b) (s, g))" by auto
    then show "s' \<in> fst ` set (rmatch (Seq a b) (s, g))" by force
  qed
next
  case (Alt a b)
  show ?case using Alt.IH(1) [of s g] Alt.IH(2) [of s g] by (auto simp: image_Un)
next
  case (Group r)
  have "fst ` set (rmatch (Group r) (s, g)) = fst ` set (rmatch r (s, g))"
    by (auto simp: image_iff) force+
  then show ?case using Group.IH [of s g] by simp
qed

lemma first_match_None_iff: "first_match r False s = None \<longleftrightarrow> rmatch r (s, None) = []"
  by (auto simp: first_match_def split: list.splits)

lemma search_at_None_iff:
  "search_at r False s = None \<longleftrightarrow> (\<forall>i \<le> length s. rmatch r (drop i s, None) = [])"
proof (induction s)
  case Nil
  show ?case using first_match_None_iff [of r "[]"]
    by (cases "first_match r False []") auto
next
  case (Cons c cs)
  have "(\<forall>i \<le> length (c # cs). rmatch r (drop i (c # cs), None) = [])
      \<longleftrightarrow> rmatch r (c # cs, None) = [] \<and> (\<forall>i \<le> length cs. rmatch r (drop i cs, None) = [])"
    (is "?L \<longleftrightarrow> ?R")
  proof
    assume l: ?L
    have "rmatch r (drop 0 (c # cs), None) = []" using l by blast
    moreover have "rmatch r (drop i cs, None) = []" if "i \<le> length cs" for i
      using l [rule_format, of "Suc i"] that by simp
    ultimately show ?R by simp
  next
    assume r: ?R
    show ?L
    proof (intro allI impI)
      fix i assume "i \<le> length (c # cs)"
      then show "rmatch r (drop i (c # cs), None) = []" using r by (cases i) auto
    qed
  qed
  then show ?case using Cons first_match_None_iff [of r "c # cs"]
    by (cases "first_match r False (c # cs)") auto
qed

lemma re_search_lang:
  "re_search r s \<longleftrightarrow> (\<exists>pre u post. s = pre @ u @ post \<and> u \<in> lang r)"
proof
  assume "re_search r s"
  then obtain i where i: "i \<le> length s" "rmatch r (drop i s, None) \<noteq> []"
    by (auto simp: re_search_def search_at_None_iff)
  then obtain m where "m \<in> set (rmatch r (drop i s, None))" by (cases "rmatch r (drop i s, None)") auto
  then have "fst m \<in> fst ` set (rmatch r (drop i s, None))" by blast
  then obtain u where "u \<in> lang r" "drop i s = u @ fst m" unfolding rmatch_lang by auto
  then have "s = take i s @ u @ fst m \<and> u \<in> lang r" by (metis append_take_drop_id)
  then show "\<exists>pre u post. s = pre @ u @ post \<and> u \<in> lang r" by blast
next
  assume "\<exists>pre u post. s = pre @ u @ post \<and> u \<in> lang r"
  then obtain pre u post where s: "s = pre @ u @ post" "u \<in> lang r" by blast
  then have "post \<in> fst ` set (rmatch r (drop (length pre) s, None))"
    unfolding rmatch_lang by auto
  then have "rmatch r (drop (length pre) s, None) \<noteq> []" by auto
  moreover have "length pre \<le> length s" using s by simp
  ultimately show "re_search r s" by (auto simp: re_search_def search_at_None_iff)
qed

lemma fresh_analyzer:
  "SerializerUsageAnalyzer p = Inr self \<Longrightarrow> results self = (\<lambda>c. []) \<and> seen_results self = {}"
  by (auto simp: SerializerUsageAnalyzer_def split: sum.splits prod.splits)

lemma key_in_line_items:
  "(f, n) \<in> item_key ` set (line_items t ps ok pre) \<longleftrightarrow>
     (\<exists>l. (f, n, l) \<in> set (source_lines t) \<and> (\<exists>pat \<in> set ps. re_search pat l) \<and> ok l)"
  by (force simp: in_line_items item_key_def image_iff)

lemma key_in_line_items_at:
  "(f, n, l) \<in> set (source_lines t) \<Longrightarrow>
     (f, n) \<in> item_key ` set (line_items t ps ok pre) \<longleftrightarrow> (\<exists>pat \<in> set ps. re_search pat l) \<and> ok l"
  unfolding key_in_line_items using source_lines_functional by blast

lemma filter_key_Nil_iff:
  "filter (\<lambda>i. item_key i = k) xs = [] \<longleftrightarrow> k \<notin> item_key ` set xs"
  by (auto simp: filter_empty_conv)

lemma example_analyzer: "SerializerUsageAnalyzer ''app.views.UserSerializer'' = Inr example_analyzer"
  by (simp add: SerializerUsageAnalyzer_def parse_serializer_path_def example_analyzer_def)

lemma analyze_fresh:
  assumes "SerializerUsageAnalyzer p = Inr self"
  obtains inst where
    "set inst \<subseteq> set (line_items t (instantiation_patterns (serializer_name self)) no_class_no_eq [])"
    "\<And>c. analyze t self c = keep_first (gathered t self inst c)"
proof -
  from analyze_gathered [of t self] obtain inst where
    i: "set inst \<subseteq> set (line_items t (instantiation_patterns (serializer_name self)) no_class_no_eq [])"
    and a: "analyze t self = (\<lambda>c. keep_first (results self c @ gathered t self inst c))"
    by blast
  have "analyze t self c = keep_first (gathered t self inst c)" for c
    using fresh_analyzer [OF assms] by (simp add: a)
  with i show ?thesis using that by blast
qed

lemma count_key_analyze_lines:
  assumes "(f, n, l) \<in> set (source_lines t)"
  shows "length (filter (\<lambda>i. item_key i = (f, n)) (keep_first (line_items t ps ok pre)))
       = (if (\<exists>pat \<in> set ps. re_search pat l) \<and> ok l then 1 else 0)"
  unfolding count_key_keep_first key_in_line_items_at [OF assms] ..

lemma field_match:
  "\<exists>pat \<in> set (field_patterns ''UserSerializer''). re_search pat ''profile = UserSerializer(many=True)''"
  by code_simp

lemma many_true_match:
  "\<exists>pat \<in> set (many_true_patterns ''UserSerializer''). re_search pat ''profile = UserSerializer(many=True)''"
  by code_simp

lemma eq_in_profile_line: "\<not> no_class_no_eq ''profile = UserSerializer(many=True)''"
  by code_simp

text \<open>
  C1. Scanning for the class \<open>UserSerializer\<close> with a freshly built analyzer, over any
  tree in which line \<open>n\<close> of a readable \<open>.py\<close> file \<open>f\<close> is
  \<open>profile = UserSerializer(many=True)\<close>: the result holds exactly one \<open>field_usages\<close>
  occurrence and exactly one \<open>many_true_usages\<close> occurrence with the key \<open>(f, n)\<close>, and
  no \<open>direct_instantiations\<close> occurrence with that key, the line containing \<open>=\<close>.
\<close>

theorem profile_line_field_and_many:
  assumes "SerializerUsageAnalyzer p = Inr self"
    and "serializer_name self = ''UserSerializer''"
    and "(f, n, ''profile = UserSerializer(many=True)'') \<in> set (source_lines t)"
  shows "length (filter (\<lambda>i. item_key i = (f, n)) (analyze t self field_usages)) = 1 \<and>
         length (filter (\<lambda>i. item_key i = (f, n)) (analyze t self many_true_usages)) = 1 \<and>
         filter (\<lambda>i. item_key i = (f, n)) (analyze t self direct_instantiations) = []"
proof -
  let ?l = "''profile = UserSerializer(many=True)''"
  from analyze_fresh [OF assms(1), of t] obtain inst where
    inst: "set inst \<subseteq> set (line_items t (instantiation_patterns (serializer_name self)) no_class_no_eq [])"
    and an: "\<And>c. analyze t self c = keep_first (gathered t self inst c)"
    by blast
  have "length (filter (\<lambda>i. item_key i = (f, n)) (analyze t self field_usages)) = 1"
    using field_match
    by (simp add: an gathered_def assms(2) count_key_analyze_lines [OF assms(3)])
  moreover have "length (filter (\<lambda>i. item_key i = (f, n)) (analyze t self many_true_usages)) = 1"
    using many_true_match
    by (simp add: an gathered_def assms(2) count_key_analyze_lines [OF assms(3)])
  moreover have "filter (\<lambda>i. item_key i = (f, n)) (analyze t self direct_instantiations) = []"
  proof -
    have "(f, n) \<notin> item_key ` set (line_items t (instantiation_patterns (serializer_name self)) no_class_no_eq [])"
      using eq_in_profile_line by (simp add: key_in_line_items_at [OF assms(3)])
    with inst have "(f, n) \<notin> item_key ` set inst" by blast
    then have "(f, n) \<notin> item_key ` set (keep_first inst)" by (simp add: keys_keep_first)
    then show ?thesis by (simp add: an gathered_def filter_key_Nil_iff)
  qed
  ultimately show ?thesis by simp
qed

theorem profile_line_field_and_many_witness:
  "SerializerUsageAnalyzer ''app.views.UserSerializer'' = Inr example_analyzer \<and>
   serializer_name example_analyzer = ''UserSerializer'' \<and>
   (''app/views.py'', 5, ''profile = UserSerializer(many=True)'') \<in> set (source_lines example_tree) \<and>
   length (filter (\<lambda>i. item_key i = (''app/views.py'', 5)) (analyze example_tree example_analyzer field_usages)) = 1 \<and>
   length (filter (\<lambda>i. item_key i = (''app/views.py'', 5)) (analyze example_tree example_analyzer many_true_usages)) = 1 \<and>
   filter (\<lambda>i. item_key i = (''app/views.py'', 5)) (analyze example_tree example_analyzer direct_instantiations) = []"
proof -
  have h1: "SerializerUsageAnalyzer ''app.views.UserSerializer'' = Inr example_analyzer"
    by (simp add: SerializerUsageAnalyzer_def parse_serializer_path_def example_analyzer_def)
  have h2: "serializer_name example_analyzer = ''UserSerializer''"
    by (simp add: example_analyzer_def)
  have h3: "(''app/views.py'', 5, ''profile = UserSerializer(many=True)'') \<in> set (source_lines example_tree)"
    by code_simp
  show ?thesis using h1 h2 h3 profile_line_field_and_many [OF h1 h2 h3] by simp
qed

lemma in_declaration_items:
  assumes "(f, n, l) \<in> set (source_lines t)" "\<exists>pat \<in> set (declaration_patterns cls). re_search pat l"
  shows "LineItem f n (strip l) \<in> set (declaration_items t cls)"
proof -
  from assms(1) obtain c where c: "(f, c) \<in> set (sources t)" "0 < n"
    "n \<le> length (split_on (CHR 0x0A) c)" "l = split_on (CHR 0x0A) c ! (n - 1)"
    unfolding source_lines_iff by blast
  then have "(n, l) \<in> set (enumerate 1 (split_on (CHR 0x0A) c))"
    by (auto simp: in_set_enumerate_eq)
  with assms(2) have "LineItem f n (strip l) \<in> set (file_line_items (declaration_patterns cls) f c)"
    unfolding file_line_items_def by force
  with c(1) show ?thesis unfolding declaration_items_def by force
qed

lemma declaration_match:
  "\<exists>pat \<in> set (declaration_patterns ''UserSerializer''). re_search pat ''serializer_class = UserSerializer''"
  by code_simp

text \<open>
  C5. Scanning for \<open>UserSerializer\<close>, resolved from \<open>app.views.UserSerializer\<close>, over
  any tree in which line \<open>n\<close> of a readable \<open>.py\<close> file \<open>f\<close> is
  \<open>serializer_class = UserSerializer\<close>: after deduplication the category
  \<open>serializer_class_declarations\<close> holds exactly one occurrence with the key \<open>(f, n)\<close>,
  whatever the other patterns, the multi-line search and the pass over enclosing
  serializers add for that line.
\<close>

theorem serializer_class_line_once:
  assumes "SerializerUsageAnalyzer ''app.views.UserSerializer'' = Inr self"
    and "(f, n, ''serializer_class = UserSerializer'') \<in> set (source_lines t)"
  shows "length (filter (\<lambda>i. item_key i = (f, n)) (analyze t self serializer_class_declarations)) = 1"
proof -
  have nm: "serializer_name self = ''UserSerializer''"
    using assms(1) by (auto simp: SerializerUsageAnalyzer_def parse_serializer_path_def)
  from analyze_fresh [OF assms(1), of t] obtain inst where
    an: "\<And>c. analyze t self c = keep_first (gathered t self inst c)"
    by blast
  have "LineItem f n (strip ''serializer_class = UserSerializer'') \<in> set (declaration_items t ''UserSerializer'')"
    using assms(2) declaration_match by (rule in_declaration_items)
  then have "item_key (LineItem f n (strip ''serializer_class = UserSerializer''))
      \<in> item_key ` set (gathered t self inst serializer_class_declarations)"
    by (simp add: gathered_def nm)
  then have "(f, n) \<in> item_key ` set (gathered t self inst serializer_class_declarations)"
    by (simp add: item_key_def)
  then show ?thesis by (simp add: an count_key_keep_first)
qed

theorem serializer_class_line_once_witness:
  "SerializerUsageAnalyzer ''app.views.UserSerializer'' = Inr example_analyzer \<and>
   (''app/views.py'', 4, ''serializer_class = UserSerializer'') \<in> set (source_lines example_tree) \<and>
   length (filter (\<lambda>i. item_key i = (''app/views.py'', 4))
     (analyze example_tree example_analyzer serializer_class_declarations)) = 1"
proof -
  have h1: "SerializerUsageAnalyzer ''app.views.UserSerializer'' = Inr example_analyzer"
    by (simp add: SerializerUsageAnalyzer_def parse_serializer_path_def example_analyzer_def)
  have h2: "(''app/views.py'', 4, ''serializer_class = UserSerializer'') \<in> set (source_lines example_tree)"
    by code_simp
  show ?thesis using h1 h2 serializer_class_line_once [OF h1 h2] by simp
qed

lemma import_items_lines: "i \<in> set (import_items t ps) \<Longrightarrow> item_line i = 0"
  by (auto simp: import_items_def split: list.splits)

text \<open>
  C6. In every category deduplication keeps the first occurrence of each
  \<open>(file, line)\<close> key and drops every later one with the same key, whatever its
  content: the result is \<open>keep_first\<close> of the list, a subsequence of it with distinct
  keys and the same set of keys, and each kept occurrence is the first of the list with
  its key. Import occurrences have no line and take the key line 0, so the
  \<open>direct_imports\<close> category of a scan holds at most one record per file.
\<close>

theorem deduplicate_keeps_first_per_key:
  "results (deduplicate_results s) c = keep_first (results s c) \<and>
   subseq (results (deduplicate_results s) c) (results s c) \<and>
   distinct (map item_key (results (deduplicate_results s) c)) \<and>
   item_key ` set (results (deduplicate_results s) c) = item_key ` set (results s c) \<and>
   (\<forall>x \<in> set (results (deduplicate_results s) c).
      find (\<lambda>y. item_key y = item_key x) (results s c) = Some x) \<and>
   (\<forall>p self t f. SerializerUsageAnalyzer p = Inr self \<longrightarrow>
      (\<forall>i \<in> set (analyze t self direct_imports). item_key i = (item_file i, 0)) \<and>
      length (filter (\<lambda>i. item_file i = f) (analyze t self direct_imports)) \<le> 1)"
proof -
  have d: "results (deduplicate_results s) c = keep_first (results s c)"
    by (simp add: deduplicate_results_def dedup_loop_empty)
  have imp: "(\<forall>i \<in> set (analyze t self direct_imports). item_key i = (item_file i, 0)) \<and>
      length (filter (\<lambda>i. item_file i = f) (analyze t self direct_imports)) \<le> 1"
    if fresh: "SerializerUsageAnalyzer p = Inr self" for p self t f
  proof -
    from analyze_fresh [OF fresh, of t] obtain inst where
      an: "\<And>c. analyze t self c = keep_first (gathered t self inst c)"
      by blast
    let ?xs = "import_items t (import_patterns (app_name self) (file_name self) (serializer_name self))"
    have a: "analyze t self direct_imports = keep_first ?xs"
      by (simp add: an gathered_def)
    have z: "item_line i = 0" if "i \<in> set (keep_first ?xs)" for i
      using that set_keep_first_subset [of ?xs] import_items_lines by blast
    then have k: "\<forall>i \<in> set (keep_first ?xs). item_key i = (item_file i, 0)"
      by (simp add: item_key_def)
    have "filter (\<lambda>i. item_file i = f) (keep_first ?xs) = filter (\<lambda>i. item_key i = (f, 0)) (keep_first ?xs)"
      using z by (intro filter_cong) (auto simp: item_key_def)
    then have "length (filter (\<lambda>i. item_file i = f) (keep_first ?xs)) \<le> 1"
      by (simp add: count_key_keep_first)
    with k show ?thesis by (simp add: a)
  qed
  show ?thesis
    unfolding d
    using subseq_keep_first distinct_keys_keep_first keys_keep_first keep_first_is_first imp
    by blast
qed

theorem deduplicate_keeps_first_per_key_witness:
  "SerializerUsageAnalyzer ''app.views.UserSerializer'' = Inr example_analyzer \<and>
   length (filter (\<lambda>i. item_file i = ''app/views.py'') (analyze example_tree example_analyzer direct_imports)) \<le> 1 \<and>
   results (deduplicate_results (example_analyzer\<lparr>results := (\<lambda>c.
       [LineItem ''a.py'' 3 ''x'', ImportItem ''a.py'' ''y'', LineItem ''a.py'' 3 ''z'', ImportItem ''a.py'' ''w''])\<rparr>))
     direct_imports = [LineItem ''a.py'' 3 ''x'', ImportItem ''a.py'' ''y'']"
proof -
  have h1: "SerializerUsageAnalyzer ''app.views.UserSerializer'' = Inr example_analyzer"
    by (simp add: SerializerUsageAnalyzer_def parse_serializer_path_def example_analyzer_def)
  show ?thesis
    using h1 deduplicate_keeps_first_per_key [of "example_analyzer\<lparr>results := (\<lambda>c.
       [LineItem ''a.py'' 3 ''x'', ImportItem ''a.py'' ''y'', LineItem ''a.py'' 3 ''z'', ImportItem ''a.py'' ''w''])\<rparr>"
       direct_imports]
    by (simp add: item_key_def)
qed

lemma meta_implies_inner:
  assumes "re_search (meta_pattern cls) l"
  shows "re_search (inner_class_pattern cls) l"
proof -
  from assms obtain pre u post where u: "l = pre @ u @ post" "u \<in> lang (meta_pattern cls)"
    unfolding re_search_lang by blast
  then have "u = cls @ ''.Meta''"
    by (auto simp: meta_pattern_def seq_def conc_def)
  then have "u = cls @ ''.'' @ ''Meta'' @ []" by simp
  moreover have "''Meta'' \<in> lang (Many is_letter 1 True)"
    by (simp add: is_letter_def)
  ultimately have "u \<in> lang (inner_class_pattern cls)"
    unfolding inner_class_pattern_def seq_def by (auto simp: conc_def)
  with u(1) show ?thesis unfolding re_search_lang by blast
qed

lemma line_item_in_keep_first:
  assumes "(f, n, l) \<in> set (source_lines t)"
  shows "LineItem f n txt \<in> set (keep_first (line_items t ps ok []))
     \<longleftrightarrow> txt = strip l \<and> (\<exists>pat \<in> set ps. re_search pat l) \<and> ok l"
proof
  assume "LineItem f n txt \<in> set (keep_first (line_items t ps ok []))"
  then have "LineItem f n txt \<in> set (line_items t ps ok [])"
    using set_keep_first_subset by blast
  then obtain l' where l': "(f, n, l') \<in> set (source_lines t)" "\<exists>pat \<in> set ps. re_search pat l'"
      "ok l'" "txt = strip l'"
    by (auto simp: in_line_items)
  with assms have "l' = l" using source_lines_functional by blast
  with l' show "txt = strip l \<and> (\<exists>pat \<in> set ps. re_search pat l) \<and> ok l" by simp
next
  assume a: "txt = strip l \<and> (\<exists>pat \<in> set ps. re_search pat l) \<and> ok l"
  then have "(f, n) \<in> item_key ` set (line_items t ps ok [])"
    using assms by (simp add: key_in_line_items_at [OF assms])
  then have "(f, n) \<in> item_key ` set (keep_first (line_items t ps ok []))"
    by (simp add: keys_keep_first)
  then obtain j where j: "j \<in> set (keep_first (line_items t ps ok []))" "item_key j = (f, n)"
    by auto
  then have "j \<in> set (line_items t ps ok [])" using set_keep_first_subset by blast
  then obtain p' n' l' where l': "(p', n', l') \<in> set (source_lines t)" "j = LineItem p' n' (strip l')"
    by (auto simp: in_line_items)
  with j(2) have "p' = f" "n' = n" by (auto simp: item_key_def)
  with l' assms have "l' = l" using source_lines_functional by blast
  with l' \<open>p' = f\<close> \<open>n' = n\<close> a j(1) show "LineItem f n txt \<in> set (keep_first (line_items t ps ok []))"
    by simp
qed

text \<open>
  C9. An occurrence recorded in \<open>meta_class_references\<close> at \<open>(f, n)\<close>, when the text of
  that line does not contain \<open>serializer_class\<close>, is also recorded in
  \<open>inner_class_usages\<close>; each of the two categories holds exactly one occurrence with
  that key, so the line counts at least twice in the sum of the eight categories.
\<close>

theorem meta_reference_also_inner_usage:
  assumes "SerializerUsageAnalyzer p = Inr self"
    and "LineItem f n txt \<in> set (analyze t self meta_class_references)"
    and "(f, n, l) \<in> set (source_lines t)"
    and "\<not> sublist ''serializer_class'' l"
  shows "LineItem f n txt \<in> set (analyze t self inner_class_usages) \<and>
         length (filter (\<lambda>i. item_key i = (f, n)) (analyze t self meta_class_references)) = 1 \<and>
         length (filter (\<lambda>i. item_key i = (f, n)) (analyze t self inner_class_usages)) = 1 \<and>
         2 \<le> count_usages (analyze t self)"
proof -
  from analyze_fresh [OF assms(1), of t] obtain inst where
    an: "\<And>c. analyze t self c = keep_first (gathered t self inst c)"
    by blast
  let ?cls = "serializer_name self"
  have meta: "analyze t self meta_class_references
      = keep_first (line_items t [meta_pattern ?cls] (\<lambda>ln. True) [])"
    by (simp add: an gathered_def)
  have inner: "analyze t self inner_class_usages
      = keep_first (line_items t [inner_class_pattern ?cls] (\<lambda>ln. \<not> sublist ''serializer_class'' ln) [])"
    by (simp add: an gathered_def)
  from assms(2) have m: "txt = strip l" "re_search (meta_pattern ?cls) l"
    unfolding meta by (simp_all add: line_item_in_keep_first [OF assms(3)])
  then have i: "re_search (inner_class_pattern ?cls) l" by (simp add: meta_implies_inner)
  have mem: "LineItem f n txt \<in> set (analyze t self inner_class_usages)"
    unfolding inner using m(1) i assms(4) by (simp add: line_item_in_keep_first [OF assms(3)])
  have c1: "length (filter (\<lambda>i. item_key i = (f, n)) (analyze t self meta_class_references)) = 1"
    unfolding meta using m(2) by (simp add: count_key_analyze_lines [OF assms(3)])
  have c2: "length (filter (\<lambda>i. item_key i = (f, n)) (analyze t self inner_class_usages)) = 1"
    unfolding inner using i assms(4) by (simp add: count_key_analyze_lines [OF assms(3)])
  have "1 \<le> length (analyze t self meta_class_references)"
    using c1 length_filter_le [of "\<lambda>i. item_key i = (f, n)" "analyze t self meta_class_references"]
    by simp
  moreover have "1 \<le> length (analyze t self inner_class_usages)"
    using c2 length_filter_le [of "\<lambda>i. item_key i = (f, n)" "analyze t self inner_class_usages"]
    by simp
  ultimately have "2 \<le> count_usages (analyze t self)"
    by (simp add: count_usages_def)
  with mem c1 c2 show ?thesis by simp
qed

lemma example_meta_match: "re_search (meta_pattern ''UserSerializer'') ''class Meta(UserSerializer.Meta):''"
  by code_simp

lemma example_meta_strip: "strip ''class Meta(UserSerializer.Meta):'' = ''class Meta(UserSerializer.Meta):''"
  by code_simp

lemma example_meta_guard: "\<not> sublist ''serializer_class'' ''class Meta(UserSerializer.Meta):''"
  by code_simp

theorem meta_reference_also_inner_usage_witness:
  "SerializerUsageAnalyzer ''app.views.UserSerializer'' = Inr example_analyzer \<and>
   LineItem ''app/views.py'' 6 ''class Meta(UserSerializer.Meta):''
     \<in> set (analyze example_tree example_analyzer meta_class_references) \<and>
   (''app/views.py'', 6, ''class Meta(UserSerializer.Meta):'') \<in> set (source_lines example_tree) \<and>
   \<not> sublist ''serializer_class'' ''class Meta(UserSerializer.Meta):'' \<and>
   LineItem ''app/views.py'' 6 ''class Meta(UserSerializer.Meta):''
     \<in> set (analyze example_tree example_analyzer inner_class_usages) \<and>
   2 \<le> count_usages (analyze example_tree example_analyzer)"
proof -
  have h1: "SerializerUsageAnalyzer ''app.views.UserSerializer'' = Inr example_analyzer"
    by (simp add: SerializerUsageAnalyzer_def parse_serializer_path_def example_analyzer_def)
  have h3: "(''app/views.py'', 6, ''class Meta(UserSerializer.Meta):'') \<in> set (source_lines example_tree)"
    by code_simp
  from analyze_fresh [OF h1, of example_tree] obtain inst where
    an: "\<And>c. analyze example_tree example_analyzer c = keep_first (gathered example_tree example_analyzer inst c)"
    by blast
  have nm: "serializer_name example_analyzer = ''UserSerializer''"
    by (simp add: example_analyzer_def)
  have h2: "LineItem ''app/views.py'' 6 ''class Meta(UserSerializer.Meta):''
     \<in> set (analyze example_tree example_analyzer meta_class_references)"
    using example_meta_match example_meta_strip
    by (simp add: an gathered_def nm line_item_in_keep_first [OF h3])
  show ?thesis
    using h1 h2 h3 example_meta_guard
      meta_reference_also_inner_usage [OF h1 h2 h3 example_meta_guard]
    by simp
qed

text \<open>
  C10. A line whose text contains \<open>class\<close> or \<open>=\<close> anywhere is never recorded by the
  direct-instantiations pass: what the pass appends has no occurrence with the key of
  such a line, and the \<open>direct_instantiations\<close> category of a scan has none either.
\<close>

theorem instantiation_skips_class_and_equals:
  assumes "(f, n, l) \<in> set (source_lines t)"
    and "sublist ''class'' l \<or> sublist ''='' l"
  shows "(\<exists>new. results (scan_for_direct_instantiations t s) direct_instantiations
                  = results s direct_instantiations @ new \<and>
               (\<forall>i \<in> set new. item_key i \<noteq> (f, n))) \<and>
         (\<forall>p self. SerializerUsageAnalyzer p = Inr self \<longrightarrow>
               (\<forall>i \<in> set (analyze t self direct_instantiations). item_key i \<noteq> (f, n)))"
proof -
  have nokey: "(f, n) \<notin> item_key ` set (line_items t ps no_class_no_eq [])" for ps
    using assms(2) by (simp add: key_in_line_items_at [OF assms(1)] no_class_no_eq_def)
  from scan_for_direct_instantiations_items [of t s] obtain new seen' where
    new: "scan_for_direct_instantiations t s = record_items direct_instantiations new (s\<lparr>seen_results := seen'\<rparr>)"
    and sub: "set new \<subseteq> set (line_items t (instantiation_patterns (serializer_name s)) no_class_no_eq [])"
    by blast
  have "results (scan_for_direct_instantiations t s) direct_instantiations
          = results s direct_instantiations @ new"
    by (simp add: new record_items_def)
  moreover have "\<forall>i \<in> set new. item_key i \<noteq> (f, n)"
    using sub nokey [of "instantiation_patterns (serializer_name s)"] by (metis imageI subsetD)
  ultimately have first: "\<exists>new. results (scan_for_direct_instantiations t s) direct_instantiations
                  = results s direct_instantiations @ new \<and>
               (\<forall>i \<in> set new. item_key i \<noteq> (f, n))"
    by blast
  have second: "\<forall>i \<in> set (analyze t self direct_instantiations). item_key i \<noteq> (f, n)"
    if fresh: "SerializerUsageAnalyzer p = Inr self" for p self
  proof -
    from analyze_fresh [OF fresh, of t] obtain inst where
      inst: "set inst \<subseteq> set (line_items t (instantiation_patterns (serializer_name self)) no_class_no_eq [])"
      and an: "\<And>c. analyze t self c = keep_first (gathered t self inst c)"
      by blast
    have "set (analyze t self direct_instantiations) \<subseteq> set inst"
      using set_keep_first_subset by (simp add: an gathered_def)
    with inst nokey [of "instantiation_patterns (serializer_name self)"] show ?thesis
      by (metis imageI subsetD)
  qed
  from first second show ?thesis by blast
qed

theorem instantiation_skips_class_and_equals_witness:
  "(''app/views.py'', 7, ''UserSerializer(classify(x))'') \<in> set (source_lines example_tree) \<and>
   sublist ''class'' ''UserSerializer(classify(x))'' \<and>
   re_search (hd (instantiation_patterns ''UserSerializer'')) ''UserSerializer(classify(x))'' \<and>
   filter (\<lambda>i. item_key i = (''app/views.py'', 7))
     (analyze example_tree example_analyzer direct_instantiations) = []"
proof -
  have h1: "(''app/views.py'', 7, ''UserSerializer(classify(x))'') \<in> set (source_lines example_tree)"
    by code_simp
  have h2: "sublist ''class'' ''UserSerializer(classify(x))''"
    by code_simp
  have h3: "re_search (hd (instantiation_patterns ''UserSerializer'')) ''UserSerializer(classify(x))''"
    by code_simp
  have h4: "SerializerUsageAnalyzer ''app.views.UserSerializer'' = Inr example_analyzer"
    by (simp add: SerializerUsageAnalyzer_def parse_serializer_path_def example_analyzer_def)
  have h5: "sublist ''class'' ''UserSerializer(classify(x))'' \<or> sublist ''='' ''UserSerializer(classify(x))''"
    using h2 by simp
  have "\<forall>i \<in> set (analyze example_tree example_analyzer direct_instantiations).
      item_key i \<noteq> (''app/views.py'', 7)"
    using h4 instantiation_skips_class_and_equals [OF h1 h5, of example_analyzer] by blast
  then have "filter (\<lambda>i. item_key i = (''app/views.py'', 7))
     (analyze example_tree example_analyzer direct_instantiations) = []"
    by (simp add: filter_empty_conv)
  with h1 h2 h3 show ?thesis by blast
qed

lemma concat_map_removeAll:
  "g p = [] \<Longrightarrow> concat (map g (removeAll p xs)) = concat (map g xs)"
  by (induction xs) auto

lemma sources_without_file:
  assumes "read_text t p = IOError \<or> read_text t p = UnicodeDecodeError"
  shows "sources (without_file p t) = sources t"
proof -
  let ?g = "\<lambda>rel_path. if suffix ''.py'' rel_path then
           (case read_text t rel_path of Content text \<Rightarrow> [(rel_path, text)] | IOError \<Rightarrow> []
            | UnicodeDecodeError \<Rightarrow> []) else []"
  let ?g' = "\<lambda>rel_path. if suffix ''.py'' rel_path then
           (case read_text (without_file p t) rel_path of Content text \<Rightarrow> [(rel_path, text)] | IOError \<Rightarrow> []
            | UnicodeDecodeError \<Rightarrow> []) else []"
  have gp: "?g p = []" using assms by auto
  have eq: "?g' = ?g" using assms by (auto simp: fun_eq_iff without_file_def)
  have "concat (map ?g' (walk_files (without_file p t) d)) = concat (map ?g (walk_files t d))" for d
    unfolding eq using concat_map_removeAll [of ?g p, OF gp] by (simp add: without_file_def)
  then show ?thesis
    unfolding sources_def by (simp add: without_file_def)
qed

lemma for_each_source_cong:
  "sources t' = sources t \<Longrightarrow> for_each_source t' body = for_each_source t body"
  by (simp add: for_each_source_sources)

lemma list_ex_removeAll: "\<not> P p \<Longrightarrow> list_ex P (removeAll p xs) = list_ex P xs"
  by (induction xs) auto

lemma find_serializer_in_file_without_file:
  assumes "read_text t p = IOError \<or> read_text t p = UnicodeDecodeError"
  shows "find_serializer_in_file (without_file p t) s = find_serializer_in_file t s"
proof -
  have src: "sources (without_file p t) = sources t" by (rule sources_without_file [OF assms])
  have par: "find_potential_parent_serializers (without_file p t) s = find_potential_parent_serializers t s"
    unfolding find_potential_parent_serializers_def by (simp add: for_each_source_cong [OF src])
  have rd: "(case read_text (without_file p t) q of Content text \<Rightarrow> P text | IOError \<Rightarrow> False
              | UnicodeDecodeError \<Rightarrow> False)
          = (case read_text t q of Content text \<Rightarrow> P text | IOError \<Rightarrow> False
              | UnicodeDecodeError \<Rightarrow> False)" for q P
    using assms by (auto simp: without_file_def)
  have wf: "list_ex (\<lambda>file_path. suffix ''.py'' file_path \<and>
                     (case read_text t file_path of
                        Content text \<Rightarrow> nested_in (serializer_name s) text
                      | IOError \<Rightarrow> False
                      | UnicodeDecodeError \<Rightarrow> False)) (walk_files (without_file p t) d)
          = list_ex (\<lambda>file_path. suffix ''.py'' file_path \<and>
                     (case read_text t file_path of
                        Content text \<Rightarrow> nested_in (serializer_name s) text
                      | IOError \<Rightarrow> False
                      | UnicodeDecodeError \<Rightarrow> False)) (walk_files t d)" for d
  proof -
    have "walk_files (without_file p t) d = removeAll p (walk_files t d)"
      by (simp add: without_file_def)
    then show ?thesis using assms by (auto simp: list_ex_removeAll)
  qed
  have pd: "project_dirs (without_file p t) = project_dirs t" by (simp add: without_file_def)
  show ?thesis
    unfolding find_serializer_in_file_def par rd wf pd ..
qed

lemma in_concat_map: "i \<in> set (concat (map g xs)) \<longleftrightarrow> (\<exists>x \<in> set xs. i \<in> set (g x))"
  by auto

lemma file_line_items_file:
  assumes "i \<in> set (file_line_items ps f c)"
  shows "item_file i = f"
proof -
  from assms obtain x where "i \<in> set (concat (map (\<lambda>pattern. if re_search pattern (snd x)
                               then [LineItem f (fst x) (strip (snd x))] else []) ps))"
    unfolding file_line_items_def in_concat_map case_prod_unfold by blast
  then obtain pat where
    "i \<in> set (if re_search pat (snd x) then [LineItem f (fst x) (strip (snd x))] else [])"
    unfolding in_concat_map by blast
  then show ?thesis by (cases "re_search pat (snd x)") auto
qed

lemma dynamic_items_file:
  assumes "i \<in> set (dynamic_items cls f c)"
  shows "item_file i = f"
proof -
  from assms obtain m where
    "i \<in> set (if sublist cls (group1 m)
        then [LineItem f (count_list (take (group1_start c m) c) (CHR 0x0A) + 1)
                (''Dynamic selection in get_serializer_class: '' @ strip (group1 m))]
        else [])"
    unfolding dynamic_items_def in_concat_map by blast
  then show ?thesis by (cases "sublist cls (group1 m)") auto
qed

lemma declaration_items_file:
  assumes "i \<in> set (declaration_items t cls)"
  shows "\<exists>c. (item_file i, c) \<in> set (sources t)"
proof -
  from assms obtain x where x: "x \<in> set (sources t)"
    "i \<in> set (file_line_items (declaration_patterns cls) (fst x) (snd x) @
          dynamic_items cls (fst x) (snd x))"
    unfolding declaration_items_def in_concat_map case_prod_unfold by blast
  then have "item_file i = fst x" using file_line_items_file dynamic_items_file by auto
  with x(1) have "(item_file i, snd x) \<in> set (sources t)" by simp
  then show ?thesis by blast
qed

lemma import_items_file:
  assumes "i \<in> set (import_items t ps)"
  shows "\<exists>c. (item_file i, c) \<in> set (sources t)"
proof -
  from assms obtain x where x: "x \<in> set (sources t)"
    "i \<in> set (concat (map (\<lambda>pattern. case findall pattern (snd x) of [] \<Rightarrow> []
                               | first # rest \<Rightarrow> [ImportItem (fst x) first]) ps))"
    unfolding import_items_def in_concat_map case_prod_unfold by blast
  then obtain pat where
    "i \<in> set (case findall pat (snd x) of [] \<Rightarrow> [] | first # rest \<Rightarrow> [ImportItem (fst x) first])"
    unfolding in_concat_map by blast
  then have "item_file i = fst x" by (cases "findall pat (snd x)") auto
  with x(1) have "(item_file i, snd x) \<in> set (sources t)" by simp
  then show ?thesis by blast
qed

text \<open>
  C8. When reading a file raises \<open>IOError\<close> or \<open>UnicodeDecodeError\<close>, every pass leaves
  that file by \<open>continue\<close>: each pass, and the scan as a whole, gives what it gives on
  the same tree without the file, and a scan that starts from a freshly built analyzer
  returns no occurrence in that file. The scan has no branch on which the read error
  leaves \<open>analyze\<close>.
\<close>

theorem unreadable_file_is_skipped:
  assumes "read_text t p = IOError \<or> read_text t p = UnicodeDecodeError"
  shows "analyze t self = analyze (without_file p t) self \<and>
         scan_for_direct_imports t self = scan_for_direct_imports (without_file p t) self \<and>
         scan_for_serializer_class_declarations t self
           = scan_for_serializer_class_declarations (without_file p t) self \<and>
         scan_for_field_usages t self = scan_for_field_usages (without_file p t) self \<and>
         scan_for_serializer_inheritance t self = scan_for_serializer_inheritance (without_file p t) self \<and>
         scan_for_direct_instantiations t self = scan_for_direct_instantiations (without_file p t) self \<and>
         scan_for_many_true_usages t self = scan_for_many_true_usages (without_file p t) self \<and>
         scan_for_inner_class_usages t self = scan_for_inner_class_usages (without_file p t) self \<and>
         scan_for_meta_class_references t self = scan_for_meta_class_references (without_file p t) self \<and>
         scan_for_parent_serializer_usages t self = scan_for_parent_serializer_usages (without_file p t) self \<and>
         (\<forall>q c. SerializerUsageAnalyzer q = Inr self \<longrightarrow>
            (\<forall>i \<in> set (analyze t self c). item_file i \<noteq> p))"
proof -
  let ?t = "without_file p t"
  have src: "sources ?t = sources t" by (rule sources_without_file [OF assms])
  note fe = for_each_source_cong [OF src]
  have p1: "scan_for_direct_imports ?t = scan_for_direct_imports t"
    by (simp add: fun_eq_iff scan_for_direct_imports_def fe)
  have p2: "scan_for_serializer_class_declarations ?t = scan_for_serializer_class_declarations t"
    by (simp add: fun_eq_iff scan_for_serializer_class_declarations_def fe)
  have sl: "scan_lines ?t = scan_lines t"
    by (simp add: fun_eq_iff scan_lines_def fe)
  have p3: "scan_for_field_usages ?t = scan_for_field_usages t"
    by (simp add: fun_eq_iff scan_for_field_usages_def sl)
  have p4: "scan_for_serializer_inheritance ?t = scan_for_serializer_inheritance t"
    by (simp add: fun_eq_iff scan_for_serializer_inheritance_def sl)
  have p5: "scan_for_direct_instantiations ?t = scan_for_direct_instantiations t"
    by (simp add: fun_eq_iff scan_for_direct_instantiations_def fe)
  have p6: "scan_for_many_true_usages ?t = scan_for_many_true_usages t"
    by (simp add: fun_eq_iff scan_for_many_true_usages_def sl)
  have p7: "scan_for_inner_class_usages ?t = scan_for_inner_class_usages t"
    by (simp add: fun_eq_iff scan_for_inner_class_usages_def sl)
  have p8: "scan_for_meta_class_references ?t = scan_for_meta_class_references t"
    by (simp add: fun_eq_iff scan_for_meta_class_references_def sl)
  have par: "find_potential_parent_serializers ?t = find_potential_parent_serializers t"
    by (simp add: fun_eq_iff find_potential_parent_serializers_def fe)
  have lines: "source_lines ?t = source_lines t"
    by (simp add: source_lines_def src)
  have p9: "scan_for_parent_serializer_usages ?t = scan_for_parent_serializer_usages t"
    by (simp add: fun_eq_iff scan_for_parent_serializer_usages_items parent_items_def
        line_items_def lines par)
  have loc: "find_serializer_in_file ?t self = find_serializer_in_file t self"
    by (rule find_serializer_in_file_without_file [OF assms])
  have an: "analyze ?t self = analyze t self"
    unfolding analyze_def loc p1 p2 p3 p4 p5 p6 p7 p8 p9 ..
  have nofile: "\<forall>i \<in> set (analyze t self c). item_file i \<noteq> p"
    if fresh: "SerializerUsageAnalyzer q = Inr self" for q c
  proof -
    have nosrc: "(p, cnt) \<notin> set (sources t)" for cnt
      using assms by (auto simp: in_sources)
    then have nol: "(p, n, l) \<notin> set (source_lines t)" for n l
      by (auto simp: source_lines_iff)
    from analyze_fresh [OF fresh, of t] obtain inst where
      inst: "set inst \<subseteq> set (line_items t (instantiation_patterns (serializer_name self)) no_class_no_eq [])"
      and a: "\<And>c. analyze t self c = keep_first (gathered t self inst c)"
      by blast
    have li: "item_file i \<noteq> p" if "i \<in> set (line_items t ps ok pre)" for i ps ok pre
      using that nol by (auto simp: in_line_items)
    have ii: "item_file i \<noteq> p" if "i \<in> set (import_items t ps)" for i ps
      using import_items_file [OF that] nosrc by auto
    have di: "item_file i \<noteq> p" if "i \<in> set (declaration_items t cls)" for i cls
      using declaration_items_file [OF that] nosrc by auto
    have pi: "item_file i \<noteq> p" if "i \<in> set (parent_items t self)" for i
      using that li unfolding parent_items_def by auto
    have "item_file i \<noteq> p" if g: "i \<in> set (gathered t self inst c)" for i
    proof (cases c)
      case direct_imports
      with g show ?thesis using ii by (simp add: gathered_def)
    next
      case serializer_class_declarations
      with g show ?thesis using di pi by (auto simp: gathered_def)
    next
      case field_usages
      with g show ?thesis using li by (simp add: gathered_def)
    next
      case serializer_inheritance
      with g show ?thesis using li by (simp add: gathered_def)
    next
      case direct_instantiations
      with g have "i \<in> set inst" by (simp add: gathered_def)
      with inst show ?thesis using li by blast
    next
      case many_true_usages
      with g show ?thesis using li by (simp add: gathered_def)
    next
      case inner_class_usages
      with g show ?thesis using li by (simp add: gathered_def)
    next
      case meta_class_references
      with g show ?thesis using li by (simp add: gathered_def)
    qed
    then show ?thesis using set_keep_first_subset by (auto simp: a)
  qed
  show ?thesis
  proof (intro conjI)
    show "analyze t self = analyze ?t self" by (simp add: an)
    show "scan_for_direct_imports t self = scan_for_direct_imports ?t self" by (simp add: p1)
    show "scan_for_serializer_class_declarations t self = scan_for_serializer_class_declarations ?t self"
      by (simp add: p2)
    show "scan_for_field_usages t self = scan_for_field_usages ?t self" by (simp add: p3)
    show "scan_for_serializer_inheritance t self = scan_for_serializer_inheritance ?t self"
      by (simp add: p4)
    show "scan_for_direct_instantiations t self = scan_for_direct_instantiations ?t self"
      by (simp add: p5)
    show "scan_for_many_true_usages t self = scan_for_many_true_usages ?t self" by (simp add: p6)
    show "scan_for_inner_class_usages t self = scan_for_inner_class_usages ?t self" by (simp add: p7)
    show "scan_for_meta_class_references t self = scan_for_meta_class_references ?t self"
      by (simp add: p8)
    show "scan_for_parent_serializer_usages t self = scan_for_parent_serializer_usages ?t self"
      by (simp add: p9)
    show "\<forall>q c. SerializerUsageAnalyzer q = Inr self \<longrightarrow>
            (\<forall>i \<in> set (analyze t self c). item_file i \<noteq> p)"
      using nofile by blast
  qed
qed

theorem unreadable_file_is_skipped_witness:
  "read_text example_tree ''app/broken.py'' = UnicodeDecodeError \<and>
   analyze example_tree example_analyzer
     = analyze (without_file ''app/broken.py'' example_tree) example_analyzer"
proof -
  have r: "read_text example_tree ''app/broken.py'' = UnicodeDecodeError"
    by (simp add: example_tree_def)
  then have h: "read_text example_tree ''app/broken.py'' = IOError \<or>
      read_text example_tree ''app/broken.py'' = UnicodeDecodeError"
    by (rule disjI2)
  have "analyze example_tree example_analyzer
     = analyze (without_file ''app/broken.py'' example_tree) example_analyzer"
    by (rule unreadable_file_is_skipped [OF h, THEN conjunct1])
  with r show ?thesis by (rule conjI)
qed

lemma foo_analyzer: "SerializerUsageAnalyzer ''app.models.Foo'' = Inr foo_analyzer"
  by (simp add: SerializerUsageAnalyzer_def parse_serializer_path_def foo_analyzer_def)

lemma foo_name: "serializer_name foo_analyzer = ''Foo''"
  by (simp add: foo_analyzer_def)

lemma foo_tree_lines:
  "source_lines foo_tree =
     [(''app/models.py'', 1, ''class Foo(FooBase):''),
      (''app/models.py'', 2, ''class Foo(BaseSerializer):''),
      (''app/models.py'', 3, ''class Bar(FooBar):'')]"
  by code_simp

lemma foo_tree_inheritance:
  "keep_first (line_items foo_tree [inheritance_pattern ''Foo''] (\<lambda>ln. True) [])
     = [LineItem ''app/models.py'' 1 ''class Foo(FooBase):'',
        LineItem ''app/models.py'' 3 ''class Bar(FooBar):'']"
  by code_simp

text \<open>
  C4 fails on the code. Scanning for \<open>Foo\<close> a file whose three lines are
  \<open>class Foo(FooBase):\<close>, \<open>class Foo(BaseSerializer):\<close> and \<open>class Bar(FooBar):\<close>,
  the category \<open>serializer_inheritance\<close> of the result holds line 1, which defines
  \<open>Foo\<close> itself, and line 3, whose only base is \<open>FooBar\<close>; line 2 is not recorded.
\<close>

theorem own_definition_line_recorded:
  "SerializerUsageAnalyzer ''app.models.Foo'' = Inr foo_analyzer \<and>
   source_lines foo_tree =
     [(''app/models.py'', 1, ''class Foo(FooBase):''),
      (''app/models.py'', 2, ''class Foo(BaseSerializer):''),
      (''app/models.py'', 3, ''class Bar(FooBar):'')] \<and>
   analyze foo_tree foo_analyzer serializer_inheritance
     = [LineItem ''app/models.py'' 1 ''class Foo(FooBase):'',
        LineItem ''app/models.py'' 3 ''class Bar(FooBar):'']"
proof -
  from analyze_fresh [OF foo_analyzer, of foo_tree] obtain inst where
    an: "\<And>c. analyze foo_tree foo_analyzer c = keep_first (gathered foo_tree foo_analyzer inst c)"
    by blast
  have "analyze foo_tree foo_analyzer serializer_inheritance
      = keep_first (line_items foo_tree [inheritance_pattern ''Foo''] (\<lambda>ln. True) [])"
    unfolding an gathered_def foo_name by simp
  then have "analyze foo_tree foo_analyzer serializer_inheritance
     = [LineItem ''app/models.py'' 1 ''class Foo(FooBase):'',
        LineItem ''app/models.py'' 3 ''class Bar(FooBar):'']"
    unfolding foo_tree_inheritance .
  with foo_analyzer foo_tree_lines show ?thesis by (intro conjI)
qed

lemma batch_counts:
  "map (\<lambda>cls. map (\<lambda>c. length (keep_first (gathered batch_tree (batch_analyzer cls) [] c))) all_categories)
     [''ASerializer'', ''BSerializer'', ''CSerializer'', ''DSerializer'']
   = [[0, 0, 0, 1, 0, 0, 1, 1], [0, 0, 0, 1, 0, 0, 0, 0], [0, 0, 0, 0, 0, 0, 0, 0], [0, 0, 0, 1, 0, 0, 0, 0]]"
  by code_simp

lemma batch_no_instantiations:
  "map (\<lambda>cls. line_items batch_tree (instantiation_patterns cls) no_class_no_eq [])
     [''ASerializer'', ''BSerializer'', ''CSerializer'', ''DSerializer''] = [[], [], [], []]"
  by code_simp

lemma batch_in_scope:
  "map (\<lambda>cls. in_scope batch_tree (batch_analyzer cls))
     [''ASerializer'', ''BSerializer'', ''CSerializer'', ''DSerializer'', ''E(Serializer'']
   = [True, True, True, True, False]"
  by code_simp

lemma count_usages_sum:
  "count_usages res =
     length (res direct_imports) + length (res serializer_class_declarations) +
     length (res field_usages) + length (res serializer_inheritance) +
     length (res direct_instantiations) + length (res many_true_usages) +
     length (res inner_class_usages) + length (res meta_class_references)"
  by (simp add: count_usages_def)

lemma analyze_candidate_result:
  "analyze_candidate beyond t threshold c b =
     \<lparr>unused_serializers = unused_serializers b @
         filter (\<lambda>r. int (total_usages r) \<le> threshold) (candidate_result beyond t c),
      all_results = all_results b @ candidate_result beyond t c\<rparr>"
proof (cases "SerializerUsageAnalyzer (path c)")
  case (Inl e)
  then show ?thesis by (simp add: analyze_candidate_def candidate_result_def)
next
  case (Inr a)
  show ?thesis
  proof (cases "run_analysis beyond t a")
    case None
    with Inr show ?thesis by (simp add: analyze_candidate_def candidate_result_def)
  next
    case (Some res)
    with Inr show ?thesis
      by (simp add: analyze_candidate_def candidate_result_def Let_def count_usages_sum)
  qed
qed

lemma fold_analyze_candidate:
  "fold (analyze_candidate beyond t threshold) cs b =
     \<lparr>unused_serializers = unused_serializers b @
         filter (\<lambda>r. int (total_usages r) \<le> threshold) (concat (map (candidate_result beyond t) cs)),
      all_results = all_results b @ concat (map (candidate_result beyond t) cs)\<rparr>"
proof (induction cs arbitrary: b)
  case Nil
  show ?case by simp
next
  case (Cons c cs)
  have "fold (analyze_candidate beyond t threshold) (c # cs) b
      = fold (analyze_candidate beyond t threshold) cs (analyze_candidate beyond t threshold c b)"
    by simp
  also have "\<dots> = \<lparr>unused_serializers = unused_serializers (analyze_candidate beyond t threshold c b) @
         filter (\<lambda>r. int (total_usages r) \<le> threshold) (concat (map (candidate_result beyond t) cs)),
      all_results = all_results (analyze_candidate beyond t threshold c b)
         @ concat (map (candidate_result beyond t) cs)\<rparr>"
    by (rule Cons.IH)
  finally have main: "fold (analyze_candidate beyond t threshold) (c # cs) b
      = \<lparr>unused_serializers = unused_serializers (analyze_candidate beyond t threshold c b) @
         filter (\<lambda>r. int (total_usages r) \<le> threshold) (concat (map (candidate_result beyond t) cs)),
      all_results = all_results (analyze_candidate beyond t threshold c b)
         @ concat (map (candidate_result beyond t) cs)\<rparr>" .
  have step: "analyze_candidate beyond t threshold c b =
     \<lparr>unused_serializers = unused_serializers b @
         filter (\<lambda>r. int (total_usages r) \<le> threshold) (candidate_result beyond t c),
      all_results = all_results b @ candidate_result beyond t c\<rparr>"
    by (rule analyze_candidate_result)
  show ?case unfolding main step by simp
qed

lemma analyze_all_lists:
  "all_results (analyze_all beyond t threshold cs) = concat (map (candidate_result beyond t) cs)"
  "unused_serializers (analyze_all beyond t threshold cs) =
     sort_key total_usages
       (filter (\<lambda>r. int (total_usages r) \<le> threshold) (concat (map (candidate_result beyond t) cs)))"
  by (simp_all add: analyze_all_def fold_analyze_candidate Let_def)

lemma candidate_result_total:
  assumes "r \<in> set (candidate_result beyond t c)"
  shows "total_usages r =
     length (details r direct_imports) + length (details r serializer_class_declarations) +
     length (details r field_usages) + length (details r serializer_inheritance) +
     length (details r direct_instantiations) + length (details r many_true_usages) +
     length (details r inner_class_usages) + length (details r meta_class_references)"
  using assms by (auto simp: candidate_result_def split: sum.splits option.splits)

text \<open>
  C2. Batch mode is the loop over the selected candidates followed by the sort. A
  candidate's scan completes when its analyzer could be built and the scan returned;
  the results of these candidates, and of no other, stand in \<open>all_results\<close> in the order
  of enumeration. Where the scan is \<open>analyze\<close>, the result of the candidate is the one
  written out below: its \<open>total_usages\<close> is the sum of the lengths of the eight
  categories of \<open>analyze\<close>. Every result in \<open>all_results\<close> has as \<open>total_usages\<close> the
  sum of the lengths of the eight categories of its \<open>details\<close>, and it is in the unused
  list exactly when its \<open>total_usages\<close> is at most the threshold. The unused list is
  sorted ascending by \<open>total_usages\<close>, and the results with the same \<open>total_usages\<close>
  keep the order they have in \<open>all_results\<close>.
\<close>

theorem unused_list_by_threshold_sorted:
  "handle beyond t threshold target_app limit
     = analyze_all beyond t threshold (selected target_app limit (find_all_serializers t)) \<and>
   all_results (analyze_all beyond t threshold cs) = concat (map (candidate_result beyond t) cs) \<and>
   (\<forall>c \<in> set cs. \<forall>a. SerializerUsageAnalyzer (path c) = Inr a \<and> in_scope t a \<longrightarrow>
      \<lparr>name = name c, path = path c, rel_file = rel_file c,
       total_usages =
         length (analyze t a direct_imports) + length (analyze t a serializer_class_declarations) +
         length (analyze t a field_usages) + length (analyze t a serializer_inheritance) +
         length (analyze t a direct_instantiations) + length (analyze t a many_true_usages) +
         length (analyze t a inner_class_usages) + length (analyze t a meta_class_references),
       details = analyze t a\<rparr> \<in> set (all_results (analyze_all beyond t threshold cs))) \<and>
   (\<forall>r \<in> set (all_results (analyze_all beyond t threshold cs)).
      total_usages r =
        length (details r direct_imports) + length (details r serializer_class_declarations) +
        length (details r field_usages) + length (details r serializer_inheritance) +
        length (details r direct_instantiations) + length (details r many_true_usages) +
        length (details r inner_class_usages) + length (details r meta_class_references) \<and>
      (r \<in> set (unused_serializers (analyze_all beyond t threshold cs)) \<longleftrightarrow> int (total_usages r) \<le> threshold)) \<and>
   set (unused_serializers (analyze_all beyond t threshold cs))
     \<subseteq> set (all_results (analyze_all beyond t threshold cs)) \<and>
   sorted (map total_usages (unused_serializers (analyze_all beyond t threshold cs))) \<and>
   (\<forall>k. filter (\<lambda>r. total_usages r = k) (unused_serializers (analyze_all beyond t threshold cs))
        = filter (\<lambda>r. total_usages r = k)
            (filter (\<lambda>r. int (total_usages r) \<le> threshold)
               (all_results (analyze_all beyond t threshold cs))))"
proof (intro conjI)
  show "handle beyond t threshold target_app limit
     = analyze_all beyond t threshold (selected target_app limit (find_all_serializers t))"
    by (simp add: handle_def)
  show "all_results (analyze_all beyond t threshold cs) = concat (map (candidate_result beyond t) cs)"
    by (rule analyze_all_lists)
  show "\<forall>c \<in> set cs. \<forall>a. SerializerUsageAnalyzer (path c) = Inr a \<and> in_scope t a \<longrightarrow>
      \<lparr>name = name c, path = path c, rel_file = rel_file c,
       total_usages =
         length (analyze t a direct_imports) + length (analyze t a serializer_class_declarations) +
         length (analyze t a field_usages) + length (analyze t a serializer_inheritance) +
         length (analyze t a direct_instantiations) + length (analyze t a many_true_usages) +
         length (analyze t a inner_class_usages) + length (analyze t a meta_class_references),
       details = analyze t a\<rparr> \<in> set (all_results (analyze_all beyond t threshold cs))"
  proof (intro ballI allI impI)
    fix c a assume c: "c \<in> set cs" and a: "SerializerUsageAnalyzer (path c) = Inr a \<and> in_scope t a"
    then have "candidate_result beyond t c =
      [\<lparr>name = name c, path = path c, rel_file = rel_file c,
       total_usages =
         length (analyze t a direct_imports) + length (analyze t a serializer_class_declarations) +
         length (analyze t a field_usages) + length (analyze t a serializer_inheritance) +
         length (analyze t a direct_instantiations) + length (analyze t a many_true_usages) +
         length (analyze t a inner_class_usages) + length (analyze t a meta_class_references),
       details = analyze t a\<rparr>]"
      by (simp add: candidate_result_def run_analysis_def)
    with c show "\<lparr>name = name c, path = path c, rel_file = rel_file c,
       total_usages =
         length (analyze t a direct_imports) + length (analyze t a serializer_class_declarations) +
         length (analyze t a field_usages) + length (analyze t a serializer_inheritance) +
         length (analyze t a direct_instantiations) + length (analyze t a many_true_usages) +
         length (analyze t a inner_class_usages) + length (analyze t a meta_class_references),
       details = analyze t a\<rparr> \<in> set (all_results (analyze_all beyond t threshold cs))"
      unfolding analyze_all_lists by force
  qed
  show "\<forall>r \<in> set (all_results (analyze_all beyond t threshold cs)).
      total_usages r =
        length (details r direct_imports) + length (details r serializer_class_declarations) +
        length (details r field_usages) + length (details r serializer_inheritance) +
        length (details r direct_instantiations) + length (details r many_true_usages) +
        length (details r inner_class_usages) + length (details r meta_class_references) \<and>
      (r \<in> set (unused_serializers (analyze_all beyond t threshold cs)) \<longleftrightarrow> int (total_usages r) \<le> threshold)"
  proof
    fix r assume r: "r \<in> set (all_results (analyze_all beyond t threshold cs))"
    then obtain c where "r \<in> set (candidate_result beyond t c)"
      unfolding analyze_all_lists by auto
    then have "total_usages r =
        length (details r direct_imports) + length (details r serializer_class_declarations) +
        length (details r field_usages) + length (details r serializer_inheritance) +
        length (details r direct_instantiations) + length (details r many_true_usages) +
        length (details r inner_class_usages) + length (details r meta_class_references)"
      by (rule candidate_result_total)
    moreover have "r \<in> set (unused_serializers (analyze_all beyond t threshold cs))
        \<longleftrightarrow> int (total_usages r) \<le> threshold"
      using r unfolding analyze_all_lists by simp
    ultimately show "total_usages r =
        length (details r direct_imports) + length (details r serializer_class_declarations) +
        length (details r field_usages) + length (details r serializer_inheritance) +
        length (details r direct_instantiations) + length (details r many_true_usages) +
        length (details r inner_class_usages) + length (details r meta_class_references) \<and>
      (r \<in> set (unused_serializers (analyze_all beyond t threshold cs)) \<longleftrightarrow> int (total_usages r) \<le> threshold)"
      by (rule conjI)
  qed
  show "set (unused_serializers (analyze_all beyond t threshold cs))
      \<subseteq> set (all_results (analyze_all beyond t threshold cs))"
    unfolding analyze_all_lists by auto
  show "sorted (map total_usages (unused_serializers (analyze_all beyond t threshold cs)))"
    unfolding analyze_all_lists by (rule sorted_sort_key)
  show "\<forall>k. filter (\<lambda>r. total_usages r = k) (unused_serializers (analyze_all beyond t threshold cs))
        = filter (\<lambda>r. total_usages r = k)
            (filter (\<lambda>r. int (total_usages r) \<le> threshold)
               (all_results (analyze_all beyond t threshold cs)))"
    unfolding analyze_all_lists by (simp add: sort_key_stable)
qed

lemma batch_constructor:
  "map (\<lambda>cls. SerializerUsageAnalyzer (path (batch_candidate cls)))
     [''ASerializer'', ''BSerializer'', ''CSerializer'', ''DSerializer'', ''E(Serializer'']
   = map (\<lambda>cls. Inr (batch_analyzer cls))
     [''ASerializer'', ''BSerializer'', ''CSerializer'', ''DSerializer'', ''E(Serializer'']"
  by (simp add: SerializerUsageAnalyzer_def parse_serializer_path_def batch_candidate_def
      batch_analyzer_def)

lemma batch_bad_path: "SerializerUsageAnalyzer ''XSerializer'' = Inl ValueError"
  by (simp add: SerializerUsageAnalyzer_def parse_serializer_path_def)

lemma batch_analyze:
  assumes cls: "cls \<in> set [''ASerializer'', ''BSerializer'', ''CSerializer'', ''DSerializer'']"
  shows "analyze batch_tree (batch_analyzer cls) c
       = keep_first (gathered batch_tree (batch_analyzer cls) [] c)"
proof -
  have con: "SerializerUsageAnalyzer (path (batch_candidate cls)) = Inr (batch_analyzer cls)"
    using cls batch_constructor by auto
  have none: "line_items batch_tree (instantiation_patterns (serializer_name (batch_analyzer cls)))
      no_class_no_eq [] = []"
    using cls batch_no_instantiations by (auto simp: batch_analyzer_def)
  from analyze_fresh [OF con, of batch_tree] obtain inst where
    i: "set inst \<subseteq> set (line_items batch_tree
          (instantiation_patterns (serializer_name (batch_analyzer cls))) no_class_no_eq [])"
    and a: "\<And>c. analyze batch_tree (batch_analyzer cls) c
          = keep_first (gathered batch_tree (batch_analyzer cls) inst c)"
    by blast
  from i have "inst = []" unfolding none by simp
  with a show ?thesis by simp
qed

lemma batch_analyze_counts:
  "map (\<lambda>cls. map (\<lambda>c. length (analyze batch_tree (batch_analyzer cls) c)) all_categories)
     [''ASerializer'', ''BSerializer'', ''CSerializer'', ''DSerializer'']
   = [[0, 0, 0, 1, 0, 0, 1, 1], [0, 0, 0, 1, 0, 0, 0, 0], [0, 0, 0, 0, 0, 0, 0, 0], [0, 0, 0, 1, 0, 0, 0, 0]]"
proof -
  have "map (\<lambda>cls. map (\<lambda>c. length (analyze batch_tree (batch_analyzer cls) c)) all_categories)
     [''ASerializer'', ''BSerializer'', ''CSerializer'', ''DSerializer'']
   = map (\<lambda>cls. map (\<lambda>c. length (keep_first (gathered batch_tree (batch_analyzer cls) [] c))) all_categories)
     [''ASerializer'', ''BSerializer'', ''CSerializer'', ''DSerializer'']"
    by (rule map_cong [OF refl]) (simp only: batch_analyze)
  then show ?thesis unfolding batch_counts .
qed

lemma batch_candidate_results:
  "concat (map (candidate_result (\<lambda>t a. None) batch_tree) batch_candidates)
   = [\<lparr>name = ''ASerializer'', path = ''app.views.ASerializer'', rel_file = ''app/views.py'',
       total_usages = 3, details = analyze batch_tree (batch_analyzer ''ASerializer'')\<rparr>,
      \<lparr>name = ''BSerializer'', path = ''app.views.BSerializer'', rel_file = ''app/views.py'',
       total_usages = 1, details = analyze batch_tree (batch_analyzer ''BSerializer'')\<rparr>,
      \<lparr>name = ''CSerializer'', path = ''app.views.CSerializer'', rel_file = ''app/views.py'',
       total_usages = 0, details = analyze batch_tree (batch_analyzer ''CSerializer'')\<rparr>,
      \<lparr>name = ''DSerializer'', path = ''app.views.DSerializer'', rel_file = ''app/views.py'',
       total_usages = 1, details = analyze batch_tree (batch_analyzer ''DSerializer'')\<rparr>]"
proof -
  have a: "candidate_result (\<lambda>t a. None) batch_tree (batch_candidate ''ASerializer'')
      = [\<lparr>name = ''ASerializer'', path = ''app.views.ASerializer'', rel_file = ''app/views.py'',
       total_usages = 3, details = analyze batch_tree (batch_analyzer ''ASerializer'')\<rparr>]"
    using batch_constructor batch_in_scope batch_analyze_counts
    by (simp add: candidate_result_def run_analysis_def all_categories_def batch_candidate_def)
  have b: "candidate_result (\<lambda>t a. None) batch_tree (batch_candidate ''BSerializer'')
      = [\<lparr>name = ''BSerializer'', path = ''app.views.BSerializer'', rel_file = ''app/views.py'',
       total_usages = 1, details = analyze batch_tree (batch_analyzer ''BSerializer'')\<rparr>]"
    using batch_constructor batch_in_scope batch_analyze_counts
    by (simp add: candidate_result_def run_analysis_def all_categories_def batch_candidate_def)
  have c: "candidate_result (\<lambda>t a. None) batch_tree (batch_candidate ''CSerializer'')
      = [\<lparr>name = ''CSerializer'', path = ''app.views.CSerializer'', rel_file = ''app/views.py'',
       total_usages = 0, details = analyze batch_tree (batch_analyzer ''CSerializer'')\<rparr>]"
    using batch_constructor batch_in_scope batch_analyze_counts
    by (simp add: candidate_result_def run_analysis_def all_categories_def batch_candidate_def)
  have d: "candidate_result (\<lambda>t a. None) batch_tree (batch_candidate ''DSerializer'')
      = [\<lparr>name = ''DSerializer'', path = ''app.views.DSerializer'', rel_file = ''app/views.py'',
       total_usages = 1, details = analyze batch_tree (batch_analyzer ''DSerializer'')\<rparr>]"
    using batch_constructor batch_in_scope batch_analyze_counts
    by (simp add: candidate_result_def run_analysis_def all_categories_def batch_candidate_def)
  have e: "candidate_result (\<lambda>t a. None) batch_tree (batch_candidate ''E(Serializer'') = []"
    using batch_constructor batch_in_scope
    by (simp add: candidate_result_def run_analysis_def)
  have x: "candidate_result (\<lambda>t a. None) batch_tree
      \<lparr>name = ''XSerializer'', path = ''XSerializer'', rel_file = ''x.py''\<rparr> = []"
    using batch_bad_path by (simp add: candidate_result_def)
  show ?thesis unfolding batch_candidates_def
    by (simp only: list.map concat.simps a b c d e x append.simps)
qed

theorem unused_list_by_threshold_sorted_witness:
  "map (\<lambda>r. (name r, total_usages r))
       (all_results (analyze_all (\<lambda>t a. None) batch_tree 1 batch_candidates))
     = [(''ASerializer'', 3), (''BSerializer'', 1), (''CSerializer'', 0), (''DSerializer'', 1)] \<and>
   map (\<lambda>r. (name r, total_usages r))
       (unused_serializers (analyze_all (\<lambda>t a. None) batch_tree 1 batch_candidates))
     = [(''CSerializer'', 0), (''BSerializer'', 1), (''DSerializer'', 1)] \<and>
   map (\<lambda>cls. map (\<lambda>c. length (analyze batch_tree (batch_analyzer cls) c)) all_categories)
       [''ASerializer'', ''BSerializer'', ''CSerializer'', ''DSerializer'']
     = [[0, 0, 0, 1, 0, 0, 1, 1], [0, 0, 0, 1, 0, 0, 0, 0], [0, 0, 0, 0, 0, 0, 0, 0],
        [0, 0, 0, 1, 0, 0, 0, 0]] \<and>
   SerializerUsageAnalyzer ''XSerializer'' = Inl ValueError \<and>
   SerializerUsageAnalyzer ''app.views.E(Serializer'' = Inr (batch_analyzer ''E(Serializer'') \<and>
   \<not> in_scope batch_tree (batch_analyzer ''E(Serializer'') \<and>
   sorted (map total_usages
       (unused_serializers (analyze_all (\<lambda>t a. None) batch_tree 1 batch_candidates)))"
proof -
  note main = unused_list_by_threshold_sorted
    [where beyond = "\<lambda>t a. None" and t = batch_tree and threshold = 1 and cs = batch_candidates
       and target_app = None and limit = None]
  have all: "all_results (analyze_all (\<lambda>t a. None) batch_tree 1 batch_candidates)
      = concat (map (candidate_result (\<lambda>t a. None) batch_tree) batch_candidates)"
    using main by blast
  have un: "\<forall>k. filter (\<lambda>r. total_usages r = k)
        (unused_serializers (analyze_all (\<lambda>t a. None) batch_tree 1 batch_candidates))
      = filter (\<lambda>r. total_usages r = k) (filter (\<lambda>r. int (total_usages r) \<le> 1)
          (all_results (analyze_all (\<lambda>t a. None) batch_tree 1 batch_candidates)))"
    using main by blast
  have srt: "sorted (map total_usages
       (unused_serializers (analyze_all (\<lambda>t a. None) batch_tree 1 batch_candidates)))"
    using main by blast
  have c1: "map (\<lambda>r. (name r, total_usages r))
       (all_results (analyze_all (\<lambda>t a. None) batch_tree 1 batch_candidates))
     = [(''ASerializer'', 3), (''BSerializer'', 1), (''CSerializer'', 0), (''DSerializer'', 1)]"
    unfolding all batch_candidate_results by simp
  have c2: "map (\<lambda>r. (name r, total_usages r))
       (unused_serializers (analyze_all (\<lambda>t a. None) batch_tree 1 batch_candidates))
     = [(''CSerializer'', 0), (''BSerializer'', 1), (''DSerializer'', 1)]"
    unfolding analyze_all_lists batch_candidate_results by simp
  have c5: "SerializerUsageAnalyzer ''app.views.E(Serializer'' = Inr (batch_analyzer ''E(Serializer'')"
    using batch_constructor by (simp add: batch_candidate_def)
  have c6: "\<not> in_scope batch_tree (batch_analyzer ''E(Serializer'')"
    using batch_in_scope by simp
  from c1 c2 batch_analyze_counts batch_bad_path c5 c6 srt show ?thesis by (intro conjI)
qed

end
